theory Spec2Isabelle
  imports Main
begin

section \<open>Deferred signal: \<^verbatim>\<open>deferred()\<close> (async/deferred.ts)\<close>

text \<open>
  \<^verbatim>\<open>deferred()\<close> builds a Promise that carries its own \<^verbatim>\<open>resolve\<close> and
  \<^verbatim>\<open>reject\<close> as methods, and a getter \<^verbatim>\<open>state\<close> reading a local variable
  that starts as \<^verbatim>\<open>"pending"\<close>.

  The model keeps the two things the source keeps apart: the variable \<open>state\<close>, and
  the Promise itself, whose own \<^verbatim>\<open>resolve\<close>/\<^verbatim>\<open>reject\<close> functions act once only
  (the first call wins, later calls are ignored: ECMAScript's promise resolving
  functions). The method \<^verbatim>\<open>resolve\<close> is an \<^verbatim>\<open>async\<close> function whose first
  statement is \<^verbatim>\<open>await value\<close>: the call suspends there, and the rest of its body
  runs later, when the awaited value has settled. A suspended call is an entry of
  \<open>suspended\<close>; the scheduler's choice of which suspended call continues is the event
  \<open>Resume k\<close>.
\<close>

datatype dstate = Pending | Fulfilled | Rejected

text \<open>What \<^verbatim>\<open>resolve\<close> is called with: a plain value, or an awaitable that fulfils,
  rejects, or never settles.\<close>

datatype ('a, 'e) awaited = Plain 'a | Fulfils 'a | Rejects 'e | Never

text \<open>What the Promise has been settled with, by its own resolving functions.\<close>

datatype ('a, 'e) settlement = ResolvedWith 'a | RejectedWith 'e

record ('a, 'e) deferred =
  state :: dstate
  promise :: "('a, 'e) settlement option"
  suspended :: "('a, 'e) awaited list"

definition deferred :: "('a, 'e) deferred" where
  "deferred = \<lparr>state = Pending, promise = None, suspended = []\<rparr>"

text \<open>The Promise's own resolving functions: only the first call has an effect.\<close>

definition settle :: "('a, 'e) settlement \<Rightarrow> ('a, 'e) settlement option
    \<Rightarrow> ('a, 'e) settlement option" where
  "settle x p = (case p of None \<Rightarrow> Some x | Some y \<Rightarrow> Some y)"

text \<open>\<^verbatim>\<open>reject(reason) { state = "rejected"; reject(reason); }\<close>\<close>

definition reject :: "'e \<Rightarrow> ('a, 'e) deferred \<Rightarrow> ('a, 'e) deferred" where
  "reject reason d =
     d\<lparr>state := Rejected, promise := settle (RejectedWith reason) (promise d)\<rparr>"

text \<open>\<^verbatim>\<open>async resolve(value) { await value; ...\<close>: the call runs up to the
  \<^verbatim>\<open>await\<close> and suspends.\<close>

definition resolve_call :: "('a, 'e) awaited \<Rightarrow> ('a, 'e) deferred \<Rightarrow> ('a, 'e) deferred" where
  "resolve_call v d = d\<lparr>suspended := suspended d @ [v]\<rparr>"

definition drop_nth :: "nat \<Rightarrow> 'x list \<Rightarrow> 'x list" where
  "drop_nth k xs = take k xs @ drop (Suc k) xs"

text \<open>
  The continuation of the \<open>k\<close>-th suspended \<^verbatim>\<open>resolve\<close> call:
  \<^verbatim>\<open>... state = "fulfilled"; resolve(value); }\<close> when the awaited value is there; when the
  awaited value rejected, \<^verbatim>\<open>await\<close> throws and the body ends there. The first
  component is the outcome of the promise that the \<^verbatim>\<open>async\<close> call returned
  (\<open>None\<close>: still suspended, or no such call).
\<close>

definition resolve_resume :: "nat \<Rightarrow> ('a, 'e) deferred
    \<Rightarrow> ('e + unit) option \<times> ('a, 'e) deferred" where
  "resolve_resume k d =
     (if k < length (suspended d) then
        (case suspended d ! k of
           Never \<Rightarrow> (None, d)
         | Rejects e \<Rightarrow> (Some (Inl e), d\<lparr>suspended := drop_nth k (suspended d)\<rparr>)
         | Plain v \<Rightarrow>
             (Some (Inr ()),
              d\<lparr>state := Fulfilled, promise := settle (ResolvedWith v) (promise d),
                suspended := drop_nth k (suspended d)\<rparr>)
         | Fulfils v \<Rightarrow>
             (Some (Inr ()),
              d\<lparr>state := Fulfilled, promise := settle (ResolvedWith v) (promise d),
                suspended := drop_nth k (suspended d)\<rparr>))
      else (None, d))"

datatype ('a, 'e) dcall = CallResolve "('a, 'e) awaited" | CallReject 'e | Resume nat

fun dstep :: "('a, 'e) dcall \<Rightarrow> ('a, 'e) deferred \<Rightarrow> ('a, 'e) deferred" where
  "dstep (CallResolve v) d = resolve_call v d"
| "dstep (CallReject r) d = reject r d"
| "dstep (Resume k) d = snd (resolve_resume k d)"

fun drun :: "('a, 'e) dcall list \<Rightarrow> ('a, 'e) deferred \<Rightarrow> ('a, 'e) deferred" where
  "drun [] d = d"
| "drun (c # cs) d = drun cs (dstep c d)"

text \<open>The state variable and the Promise agree on "still pending".\<close>

definition agree :: "('a, 'e) deferred \<Rightarrow> bool" where
  "agree d = ((state d = Pending) = (promise d = None))"

section \<open>HTTP server core: class \<^verbatim>\<open>Server\<close> (http/server.ts)\<close>

text \<open>
  Listeners, raw connections and HTTP connections are objects of the runtime; the
  server only calls them. Each is modelled by its identity (and the fields the server
  reads). What the server does to them (\<^verbatim>\<open>close()\<close>, \<^verbatim>\<open>respondWith\<close>,
  \<^verbatim>\<open>delay\<close>) is appended to a log of effects, in call order. A thrown value is a
  \<open>deno_error\<close>; \<open>Inl\<close> is "threw" (or, for an \<^verbatim>\<open>async\<close> call, "rejected").
\<close>

datatype deno_error =
  Http string | BadResource | InvalidData | UnexpectedEof | ConnectionReset
  | NotConnected | OtherError string

definition ERROR_SERVER_CLOSED :: string where
  "ERROR_SERVER_CLOSED = ''Server closed''"

definition HTTP_PORT :: nat where "HTTP_PORT = 80"

definition HTTPS_PORT :: nat where "HTTPS_PORT = 443"

definition INITIAL_ACCEPT_BACKOFF_DELAY :: nat where "INITIAL_ACCEPT_BACKOFF_DELAY = 5"

definition MAX_ACCEPT_BACKOFF_DELAY :: nat where "MAX_ACCEPT_BACKOFF_DELAY = 1000"

record listener =
  lid :: nat
  addr :: string

record conn =
  cid :: nat
  localAddr :: string
  remoteAddr :: string

type_synonym httpConn = nat

type_synonym connInfo = "string \<times> string"

datatype response = Response string nat

record requestEvent =
  request :: string
  respondWith :: "response \<Rightarrow> bool"

datatype effect =
  ListenerClose listener | HttpConnClose httpConn | Responded string response | Delay nat

record server =
  port :: "nat option"
  host :: "string option"
  handler :: "string \<Rightarrow> connInfo \<Rightarrow> deno_error + response"
  closed :: bool
  listeners :: "listener list"
  httpConnections :: "httpConn list"
  onError :: "deno_error \<Rightarrow> deno_error + response"
  effects :: "effect list"

record serverInit =
  init_port :: "nat option"
  init_hostname :: "string option"
  init_handler :: "string \<Rightarrow> connInfo \<Rightarrow> deno_error + response"
  init_onError :: "(deno_error \<Rightarrow> deno_error + response) option"

text \<open>A JavaScript \<^verbatim>\<open>Set\<close>, in insertion order.\<close>

definition set_add :: "'x \<Rightarrow> 'x list \<Rightarrow> 'x list" where
  "set_add x xs = (if x \<in> set xs then xs else xs @ [x])"

definition set_delete :: "'x \<Rightarrow> 'x list \<Rightarrow> 'x list" where
  "set_delete x xs = removeAll x xs"

text \<open>The constructor; the default \<^verbatim>\<open>onError\<close> logs the error and answers 500.\<close>

definition default_onError :: "deno_error \<Rightarrow> deno_error + response" where
  "default_onError error = Inr (Response ''Internal Server Error'' 500)"

definition Server :: "serverInit \<Rightarrow> server" where
  "Server serverInit =
     \<lparr>port = init_port serverInit, host = init_hostname serverInit,
      handler = init_handler serverInit, closed = False, listeners = [],
      httpConnections = [],
      onError = (case init_onError serverInit of None \<Rightarrow> default_onError | Some f \<Rightarrow> f),
      effects = []\<rparr>"

definition trackListener :: "listener \<Rightarrow> server \<Rightarrow> server" where
  "trackListener l s = s\<lparr>listeners := set_add l (listeners s)\<rparr>"

definition untrackListener :: "listener \<Rightarrow> server \<Rightarrow> server" where
  "untrackListener l s = s\<lparr>listeners := set_delete l (listeners s)\<rparr>"

definition trackHttpConnection :: "httpConn \<Rightarrow> server \<Rightarrow> server" where
  "trackHttpConnection c s = s\<lparr>httpConnections := set_add c (httpConnections s)\<rparr>"

definition untrackHttpConnection :: "httpConn \<Rightarrow> server \<Rightarrow> server" where
  "untrackHttpConnection c s = s\<lparr>httpConnections := set_delete c (httpConnections s)\<rparr>"

text \<open>\<^verbatim>\<open>#closeHttpConn\<close>: untrack, then \<^verbatim>\<open>close()\<close> with its exception caught.\<close>

definition closeHttpConn :: "httpConn \<Rightarrow> server \<Rightarrow> server" where
  "closeHttpConn c s =
     (let s1 = untrackHttpConnection c s in s1\<lparr>effects := effects s1 @ [HttpConnClose c]\<rparr>)"

text \<open>\<^verbatim>\<open>close()\<close>: throws on a closed server; otherwise sets the flag, closes and
  clears the listeners, closes and clears the connections.\<close>

definition close :: "server \<Rightarrow> deno_error + server" where
  "close s =
     (if closed s then Inl (Http ERROR_SERVER_CLOSED)
      else
        (let s1 = s\<lparr>closed := True\<rparr>;
             s2 = s1\<lparr>effects := effects s1 @ map ListenerClose (listeners s1)\<rparr>;
             s3 = s2\<lparr>listeners := []\<rparr>;
             s4 = fold closeHttpConn (httpConnections s3) s3
         in Inr (s4\<lparr>httpConnections := []\<rparr>)))"

definition addrs :: "server \<Rightarrow> string list" where
  "addrs s = map addr (listeners s)"

subsection \<open>Request dispatch and the per-connection loop\<close>

text \<open>
  \<^verbatim>\<open>#respond\<close>: the handler's outcome, or, when it raised, the outcome of
  \<^verbatim>\<open>onError\<close>, which is awaited inside the \<^verbatim>\<open>catch\<close> block and so outside
  every \<^verbatim>\<open>try\<close>: when it raises too, the method ends there. Otherwise the response
  is sent; when sending throws, the connection is closed. The first component is the
  outcome of the promise returned by the \<^verbatim>\<open>async\<close> method.
\<close>

definition respond :: "requestEvent \<Rightarrow> httpConn \<Rightarrow> connInfo \<Rightarrow> server
    \<Rightarrow> (deno_error + unit) \<times> server" where
  "respond ev c ci s =
     (case (case handler s (request ev) ci of
              Inr r \<Rightarrow> Inr r
            | Inl error \<Rightarrow> onError s error) of
        Inl e \<Rightarrow> (Inl e, s)
      | Inr r \<Rightarrow>
          (if respondWith ev r
           then (Inr (), s\<lparr>effects := effects s @ [Responded (request ev) r]\<rparr>)
           else (Inr (), closeHttpConn c s)))"

datatype conn_pc = AwaitRequest | ConnDone

datatype conn_event = NextRequest requestEvent | NextRequestNull | NextRequestThrows

record serving_conn =
  httpConn_of :: httpConn
  connInfo_of :: connInfo
  cpc :: conn_pc

text \<open>The head of \<^verbatim>\<open>while (!this.#closed)\<close> in \<^verbatim>\<open>#serveHttp\<close>; after the loop,
  the connection is closed.\<close>

definition serveHttp_head :: "server \<Rightarrow> serving_conn \<Rightarrow> server \<times> serving_conn" where
  "serveHttp_head s k =
     (if closed s then (closeHttpConn (httpConn_of k) s, k\<lparr>cpc := ConnDone\<rparr>)
      else (s, k\<lparr>cpc := AwaitRequest\<rparr>))"

definition serveHttp :: "httpConn \<Rightarrow> connInfo \<Rightarrow> server \<Rightarrow> server \<times> serving_conn" where
  "serveHttp c ci s =
     serveHttp_head s \<lparr>httpConn_of = c, connInfo_of = ci, cpc = AwaitRequest\<rparr>"

text \<open>One event of the loop suspended at \<^verbatim>\<open>await httpConn.nextRequest()\<close>. The call
  of \<^verbatim>\<open>#respond\<close> is not awaited: its outcome is dropped.\<close>

definition serveHttp_step :: "conn_event \<Rightarrow> server \<times> serving_conn
    \<Rightarrow> server \<times> serving_conn" where
  "serveHttp_step e sk =
     (let s = fst sk; k = snd sk in
      if cpc k = ConnDone then (s, k)
      else
        (case e of
           NextRequestThrows \<Rightarrow> (closeHttpConn (httpConn_of k) s, k\<lparr>cpc := ConnDone\<rparr>)
         | NextRequestNull \<Rightarrow> (closeHttpConn (httpConn_of k) s, k\<lparr>cpc := ConnDone\<rparr>)
         | NextRequest ev \<Rightarrow>
             serveHttp_head (snd (respond ev (httpConn_of k) (connInfo_of k) s)) k))"

subsection \<open>The accept loop and \<^verbatim>\<open>serve\<close>\<close>

datatype accept_pc = AwaitAccept | AwaitDelay | Returned | Thrown deno_error

record serving =
  listener_of :: listener
  pc :: accept_pc
  acceptBackoffDelay :: "nat option"

datatype accept_event =
  Accepted conn "httpConn option" | AcceptThrows deno_error | DelayElapsed

text \<open>The errors after which \<^verbatim>\<open>#accept\<close> backs off and retries.\<close>

fun transient :: "deno_error \<Rightarrow> bool" where
  "transient BadResource = True"
| "transient InvalidData = True"
| "transient UnexpectedEof = True"
| "transient ConnectionReset = True"
| "transient NotConnected = True"
| "transient _ = False"

text \<open>
  \<^verbatim>\<open>if (!acceptBackoffDelay) ... = INITIAL; else ... *= 2; if (... >= MAX) ... = MAX\<close>;
  \<^verbatim>\<open>undefined\<close> and \<^verbatim>\<open>0\<close> are the falsy values.
\<close>

definition next_backoff :: "nat option \<Rightarrow> nat" where
  "next_backoff d =
     (let d1 = (case d of None \<Rightarrow> INITIAL_ACCEPT_BACKOFF_DELAY
                | Some x \<Rightarrow> if x = 0 then INITIAL_ACCEPT_BACKOFF_DELAY else x * 2)
      in if d1 \<ge> MAX_ACCEPT_BACKOFF_DELAY then MAX_ACCEPT_BACKOFF_DELAY else d1)"

text \<open>The \<^verbatim>\<open>finally\<close> block of \<^verbatim>\<open>serve\<close>.\<close>

definition serve_finally :: "listener \<Rightarrow> server \<Rightarrow> server" where
  "serve_finally l s =
     (let s1 = untrackListener l s in s1\<lparr>effects := effects s1 @ [ListenerClose l]\<rparr>)"

text \<open>The head of \<^verbatim>\<open>while (!this.#closed)\<close> in \<^verbatim>\<open>#accept\<close>: when the loop ends,
  \<^verbatim>\<open>serve\<close> runs its \<^verbatim>\<open>finally\<close> block.\<close>

definition accept_head :: "server \<Rightarrow> serving \<Rightarrow> server \<times> serving" where
  "accept_head s a =
     (if closed s then (serve_finally (listener_of a) s, a\<lparr>pc := Returned\<rparr>)
      else (s, a\<lparr>pc := AwaitAccept\<rparr>))"

text \<open>\<^verbatim>\<open>serve(listener)\<close>, up to its first suspension.\<close>

definition serve :: "listener \<Rightarrow> server \<Rightarrow> deno_error + server \<times> serving" where
  "serve l s =
     (if closed s then Inl (Http ERROR_SERVER_CLOSED)
      else Inr (accept_head (trackListener l s)
                  \<lparr>listener_of = l, pc = AwaitAccept, acceptBackoffDelay = None\<rparr>))"

definition listenAndServe :: "(nat \<Rightarrow> string \<Rightarrow> deno_error + listener) \<Rightarrow> server
    \<Rightarrow> deno_error + server \<times> serving" where
  "listenAndServe listen s =
     (if closed s then Inl (Http ERROR_SERVER_CLOSED)
      else
        (case listen (case port s of None \<Rightarrow> HTTP_PORT | Some p \<Rightarrow> p)
                (case host s of None \<Rightarrow> ''0.0.0.0'' | Some h \<Rightarrow> h) of
           Inl e \<Rightarrow> Inl e
         | Inr l \<Rightarrow> serve l s))"

definition listenAndServeTls ::
  "(nat \<Rightarrow> string \<Rightarrow> string \<Rightarrow> string \<Rightarrow> deno_error + listener) \<Rightarrow> string \<Rightarrow> string
    \<Rightarrow> server \<Rightarrow> deno_error + server \<times> serving" where
  "listenAndServeTls listenTls certFile keyFile s =
     (if closed s then Inl (Http ERROR_SERVER_CLOSED)
      else
        (case listenTls (case port s of None \<Rightarrow> HTTPS_PORT | Some p \<Rightarrow> p)
                (case host s of None \<Rightarrow> ''0.0.0.0'' | Some h \<Rightarrow> h) certFile keyFile of
           Inl e \<Rightarrow> Inl e
         | Inr l \<Rightarrow> serve l s))"

text \<open>
  One event of an accept loop. The third component is the per-connection loop the
  event starts, if any (\<^verbatim>\<open>this.#serveHttp(httpConn, connInfo)\<close>, not awaited).
\<close>

definition accept_step :: "accept_event \<Rightarrow> server \<times> serving
    \<Rightarrow> (server \<times> serving) \<times> serving_conn option" where
  "accept_step e sa =
     (let s = fst sa; a = snd sa in
      case (pc a, e) of
        (AwaitAccept, AcceptThrows error) \<Rightarrow>
          (if transient error then
             (let d = next_backoff (acceptBackoffDelay a) in
              ((s\<lparr>effects := effects s @ [Delay d]\<rparr>,
                a\<lparr>pc := AwaitDelay, acceptBackoffDelay := Some d\<rparr>), None))
           else ((serve_finally (listener_of a) s, a\<lparr>pc := Thrown error\<rparr>), None))
      | (AwaitAccept, Accepted c upgraded) \<Rightarrow>
          (let a1 = a\<lparr>acceptBackoffDelay := None\<rparr> in
           case upgraded of
             None \<Rightarrow> (accept_head s a1, None)
           | Some hc \<Rightarrow>
               (let sk = serveHttp hc (localAddr c, remoteAddr c) (trackHttpConnection hc s)
                in (accept_head (fst sk) a1, Some (snd sk))))
      | (AwaitDelay, DelayElapsed) \<Rightarrow> (accept_head s a, None)
      | _ \<Rightarrow> ((s, a), None))"

subsection \<open>A server with its running loops\<close>

record sys =
  srv :: server
  loops :: "serving list"
  conns :: "serving_conn list"

datatype sys_event =
  CallServe listener
  | CallListenAndServe "nat \<Rightarrow> string \<Rightarrow> deno_error + listener"
  | CallListenAndServeTls "nat \<Rightarrow> string \<Rightarrow> string \<Rightarrow> string \<Rightarrow> deno_error + listener"
      string string
  | CallClose
  | AcceptEvent nat accept_event
  | ConnEvent nat conn_event

definition started :: "deno_error + server \<times> serving \<Rightarrow> sys \<Rightarrow> sys" where
  "started r y =
     (case r of Inl e \<Rightarrow> y
      | Inr sa \<Rightarrow> y\<lparr>srv := fst sa, loops := loops y @ [snd sa]\<rparr>)"

fun sys_step :: "sys_event \<Rightarrow> sys \<Rightarrow> sys" where
  "sys_step (CallServe l) y = started (serve l (srv y)) y"
| "sys_step (CallListenAndServe listen) y = started (listenAndServe listen (srv y)) y"
| "sys_step (CallListenAndServeTls listenTls certFile keyFile) y =
     started (listenAndServeTls listenTls certFile keyFile (srv y)) y"
| "sys_step CallClose y = (case close (srv y) of Inl e \<Rightarrow> y | Inr s \<Rightarrow> y\<lparr>srv := s\<rparr>)"
| "sys_step (AcceptEvent i e) y =
     (if i < length (loops y) then
        (let r = accept_step e (srv y, loops y ! i) in
         y\<lparr>srv := fst (fst r), loops := (loops y)[i := snd (fst r)],
           conns := conns y @ (case snd r of None \<Rightarrow> [] | Some k \<Rightarrow> [k])\<rparr>)
      else y)"
| "sys_step (ConnEvent i e) y =
     (if i < length (conns y) then
        (let r = serveHttp_step e (srv y, conns y ! i) in
         y\<lparr>srv := fst r, conns := (conns y)[i := snd r]\<rparr>)
      else y)"

fun sys_run :: "sys_event list \<Rightarrow> sys \<Rightarrow> sys" where
  "sys_run [] y = y"
| "sys_run (e # es) y = sys_run es (sys_step e y)"

definition new_sys :: "serverInit \<Rightarrow> sys" where
  "new_sys i = \<lparr>srv = Server i, loops = [], conns = []\<rparr>"




subsection \<open>Auxiliary definitions for the server's properties\<close>

text \<open>On a closed server no listener is tracked.\<close>

definition srv_inv :: "server \<Rightarrow> bool" where
  "srv_inv s = (closed s \<longrightarrow> listeners s = [])"


text \<open>Options whose handler raises, and whose error handler raises too.\<close>

definition failing :: serverInit where
  "failing = \<lparr>init_port = None, init_hostname = None,
     init_handler = (\<lambda>rq ci. Inl (OtherError ''handler'')),
     init_onError = Some (\<lambda>e. Inl (OtherError ''onError''))\<rparr>"


section \<open>Bounded concurrent mapper: \<^verbatim>\<open>pooledMap\<close> (async/pool.ts)\<close>

text \<open>
  \<^verbatim>\<open>pooledMap(poolLimit, array, iteratorFn)\<close> starts an \<^verbatim>\<open>async\<close> function (the
  main routine) and returns the readable side of a stream. The model is a state machine
  whose events are the points at which a JavaScript job runs:
  \<^item> \<open>Pull\<close>: the \<^verbatim>\<open>for await\<close> hands the main routine its next result, an item or
    the end of \<open>array\<close>;
  \<^item> \<open>Settles i\<close>: the promise \<^verbatim>\<open>p\<close> of the \<open>i\<close>-th launched item settles, with the
    outcome of \<^verbatim>\<open>iteratorFn(item)\<close> (\<open>Inl\<close>: it raised or rejected);
  \<^item> \<open>Reacts i\<close>: the reactions registered on that \<^verbatim>\<open>p\<close> run: on success the
    \<^verbatim>\<open>writer.write\<close> and then the \<^verbatim>\<open>executing.splice\<close> that fulfils \<^verbatim>\<open>e\<close>; on
    failure \<^verbatim>\<open>e\<close> is rejected and nothing is removed;
  \<^item> \<open>Continue\<close>: the main routine continues after the \<^verbatim>\<open>Promise.race\<close>,
    \<^verbatim>\<open>Promise.all\<close> or \<^verbatim>\<open>Promise.allSettled\<close> it awaits has settled.
  An event that is not enabled leaves the state as it is. Every interleaving of the
  jobs is a list of events. The promise \<^verbatim>\<open>e\<close> of the \<open>i\<close>-th item is named by
  \<open>i\<close> in \<open>executing\<close>; \<open>written\<close> is what the writer was given, in order.
\<close>

text \<open>The promise \<^verbatim>\<open>p\<close> of a launched item: pending, settled with its reactions
  still to run, or settled with its reactions run. After \<open>Reacted (Inr v)\<close> the promise
  \<^verbatim>\<open>e\<close> is fulfilled, after \<open>Reacted (Inl r)\<close> it is rejected, before that it is pending.\<close>

datatype ('b, 'e) task = Running | Settled "'e + 'b" | Reacted "'e + 'b"

datatype pool_pc = AtForAwait | AtRace | AtAll | AtAllSettled | Finished

datatype ('b, 'e) emitted = Wrote 'b | WriterClosed | WroteAggregateError "'e list"

datatype pool_event = Pull | Settles nat | Reacts nat | Continue

record ('a, 'b, 'e) pool =
  source :: "'a list"
  items :: "'a list"
  tasks :: "('b, 'e) task list"
  executing :: "nat list"
  at :: pool_pc
  watched :: "nat list"
  combinator :: "bool option"
  written :: "('b, 'e) emitted list"

fun fulfilled :: "('b, 'e) task \<Rightarrow> bool" where
  "fulfilled (Reacted (Inr v)) = True"
| "fulfilled _ = False"

fun rejected :: "('b, 'e) task \<Rightarrow> bool" where
  "rejected (Reacted (Inl e)) = True"
| "rejected _ = False"

fun reason :: "('b, 'e) task \<Rightarrow> 'e list" where
  "reason (Reacted (Inl e)) = [e]"
| "reason _ = []"

definition e_fulfilled :: "('a, 'b, 'e) pool \<Rightarrow> nat \<Rightarrow> bool" where
  "e_fulfilled st i = (i < length (tasks st) \<and> fulfilled (tasks st ! i))"

definition e_rejected :: "('a, 'b, 'e) pool \<Rightarrow> nat \<Rightarrow> bool" where
  "e_rejected st i = (i < length (tasks st) \<and> rejected (tasks st ! i))"

text \<open>What \<^verbatim>\<open>Promise.race\<close>, \<^verbatim>\<open>Promise.all\<close> and \<^verbatim>\<open>Promise.allSettled\<close> of the
  listed promises \<^verbatim>\<open>e\<close> are at the time of the call: \<open>Some True\<close> fulfilled,
  \<open>Some False\<close> rejected, \<open>None\<close> pending. A race is won by the first settled entry.\<close>

definition race_outcome :: "('a, 'b, 'e) pool \<Rightarrow> nat list \<Rightarrow> bool option" where
  "race_outcome st es =
     (case filter (\<lambda>i. e_fulfilled st i \<or> e_rejected st i) es of
        [] \<Rightarrow> None
      | i # _ \<Rightarrow> Some (e_fulfilled st i))"

definition all_outcome :: "('a, 'b, 'e) pool \<Rightarrow> nat list \<Rightarrow> bool option" where
  "all_outcome st es =
     (if list_ex (e_rejected st) es then Some False
      else if list_all (e_fulfilled st) es then Some True
      else None)"

definition allSettled_outcome :: "('a, 'b, 'e) pool \<Rightarrow> nat list \<Rightarrow> bool option" where
  "allSettled_outcome st es =
     (if list_all (\<lambda>i. e_fulfilled st i \<or> e_rejected st i) es then Some True else None)"

definition pooledMap :: "'a list \<Rightarrow> ('a, 'b, 'e) pool" where
  "pooledMap array =
     \<lparr>source = array, items = [], tasks = [], executing = [], at = AtForAwait,
      watched = [], combinator = None, written = []\<rparr>"

text \<open>\<^verbatim>\<open>writer.write\<close> and \<^verbatim>\<open>writer.close\<close>: once the writer has been closed, or
  given the aggregate failure, a write is refused (and the refusal is caught).\<close>

definition writer_write :: "('b, 'e) emitted \<Rightarrow> ('a, 'b, 'e) pool \<Rightarrow> ('a, 'b, 'e) pool" where
  "writer_write x st = (if at st = Finished then st else st\<lparr>written := written st @ [x]\<rparr>)"

text \<open>\<^verbatim>\<open>executing.splice(executing.indexOf(e), 1)\<close>; \<^verbatim>\<open>indexOf\<close> is \<open>-1\<close> for a
  missing element, and \<^verbatim>\<open>splice(-1, 1)\<close> removes the last one.\<close>

definition splice_indexOf :: "nat \<Rightarrow> nat list \<Rightarrow> nat list" where
  "splice_indexOf e xs = (if e \<in> set xs then remove1 e xs else butlast xs)"

text \<open>The body of the \<^verbatim>\<open>for await\<close> loop: create \<^verbatim>\<open>p\<close> and \<^verbatim>\<open>e\<close>, push
  \<^verbatim>\<open>e\<close>, and when \<^verbatim>\<open>executing.length >= poolLimit\<close> await the race.\<close>

definition launch :: "int \<Rightarrow> 'a \<Rightarrow> ('a, 'b, 'e) pool \<Rightarrow> ('a, 'b, 'e) pool" where
  "launch poolLimit item st =
     (let e = length (tasks st);
          st1 = st\<lparr>items := items st @ [item], tasks := tasks st @ [Running],
                  executing := executing st @ [e]\<rparr>
      in if int (length (executing st1)) \<ge> poolLimit
         then st1\<lparr>at := AtRace, watched := executing st1,
                 combinator := race_outcome st1 (executing st1)\<rparr>
         else st1\<lparr>at := AtForAwait\<rparr>)"

text \<open>The \<^verbatim>\<open>catch\<close> block, up to \<^verbatim>\<open>await Promise.allSettled(executing)\<close>.\<close>

definition enter_catch :: "('a, 'b, 'e) pool \<Rightarrow> ('a, 'b, 'e) pool" where
  "enter_catch st =
     st\<lparr>at := AtAllSettled, watched := executing st,
        combinator := allSettled_outcome st (executing st)\<rparr>"

text \<open>The loop receives its next item, or the source has ended and the routine awaits
  \<^verbatim>\<open>Promise.all(executing)\<close>.\<close>

definition pull :: "int \<Rightarrow> ('a, 'b, 'e) pool \<Rightarrow> ('a, 'b, 'e) pool" where
  "pull poolLimit st =
     (if at st = AtForAwait then
        (case source st of
           item # rest \<Rightarrow> launch poolLimit item (st\<lparr>source := rest\<rparr>)
         | [] \<Rightarrow> st\<lparr>at := AtAll, watched := executing st,
                   combinator := all_outcome st (executing st)\<rparr>)
      else st)"

text \<open>\<^verbatim>\<open>p = Promise.resolve().then(() => iteratorFn(item))\<close> settles.\<close>

definition settles :: "('a \<Rightarrow> 'e + 'b) \<Rightarrow> nat \<Rightarrow> ('a, 'b, 'e) pool \<Rightarrow> ('a, 'b, 'e) pool" where
  "settles iteratorFn i st =
     (if i < length (tasks st) \<and> i < length (items st) \<and> tasks st ! i = Running
      then st\<lparr>tasks := (tasks st)[i := Settled (iteratorFn (items st ! i))]\<rparr>
      else st)"

text \<open>The promise \<^verbatim>\<open>e\<close> of item \<open>i\<close> has settled: the combinator the main routine
  awaits, if still pending and if it was given that promise, sees it.\<close>

definition notify :: "nat \<Rightarrow> ('a, 'b, 'e) pool \<Rightarrow> ('a, 'b, 'e) pool" where
  "notify i st =
     (if i \<in> set (watched st) \<and> combinator st = None then
        (case at st of
           AtRace \<Rightarrow> st\<lparr>combinator := Some (e_fulfilled st i)\<rparr>
         | AtAll \<Rightarrow> st\<lparr>combinator := all_outcome st (watched st)\<rparr>
         | AtAllSettled \<Rightarrow> st\<lparr>combinator := allSettled_outcome st (watched st)\<rparr>
         | _ \<Rightarrow> st)
      else st)"

text \<open>The reactions on \<^verbatim>\<open>p\<close>: \<^verbatim>\<open>p.then((v) => writer.write(Promise.resolve(v)))\<close>
  and \<^verbatim>\<open>e = p.then(() => executing.splice(...))\<close>. Both are skipped when \<^verbatim>\<open>p\<close> is
  rejected, and \<^verbatim>\<open>e\<close> is rejected with it.\<close>

definition reacts :: "nat \<Rightarrow> ('a, 'b, 'e) pool \<Rightarrow> ('a, 'b, 'e) pool" where
  "reacts i st =
     (if i < length (tasks st) then
        (case tasks st ! i of
           Settled (Inr v) \<Rightarrow>
             (let st1 = writer_write (Wrote v) st in
              notify i (st1\<lparr>executing := splice_indexOf i (executing st1),
                            tasks := (tasks st1)[i := Reacted (Inr v)]\<rparr>))
         | Settled (Inl e) \<Rightarrow> notify i (st\<lparr>tasks := (tasks st)[i := Reacted (Inl e)]\<rparr>)
         | _ \<Rightarrow> st)
      else st)"

text \<open>The main routine continues: after a fulfilled race with the loop, after a
  fulfilled \<^verbatim>\<open>Promise.all\<close> with \<^verbatim>\<open>writer.close()\<close>, after a rejection with the
  \<^verbatim>\<open>catch\<close> block, and after \<^verbatim>\<open>Promise.allSettled\<close> with the write of the
  \<^verbatim>\<open>AggregateError\<close> of the rejection reasons, in the order of the array.\<close>

definition resume_main :: "('a, 'b, 'e) pool \<Rightarrow> ('a, 'b, 'e) pool" where
  "resume_main st =
     (case combinator st of
        None \<Rightarrow> st
      | Some ok \<Rightarrow>
          (case at st of
             AtRace \<Rightarrow> (if ok then st\<lparr>at := AtForAwait\<rparr> else enter_catch st)
           | AtAll \<Rightarrow> (if ok then (writer_write WriterClosed st)\<lparr>at := Finished\<rparr> else enter_catch st)
           | AtAllSettled \<Rightarrow>
               (writer_write
                  (WroteAggregateError (concat (map (\<lambda>i. reason (tasks st ! i)) (watched st))))
                  st)\<lparr>at := Finished\<rparr>
           | _ \<Rightarrow> st))"

fun pool_step :: "int \<Rightarrow> ('a \<Rightarrow> 'e + 'b) \<Rightarrow> pool_event \<Rightarrow> ('a, 'b, 'e) pool
    \<Rightarrow> ('a, 'b, 'e) pool" where
  "pool_step poolLimit iteratorFn Pull st = pull poolLimit st"
| "pool_step poolLimit iteratorFn (Settles i) st = settles iteratorFn i st"
| "pool_step poolLimit iteratorFn (Reacts i) st = reacts i st"
| "pool_step poolLimit iteratorFn Continue st = resume_main st"

fun pool_run :: "int \<Rightarrow> ('a \<Rightarrow> 'e + 'b) \<Rightarrow> pool_event list \<Rightarrow> ('a, 'b, 'e) pool
    \<Rightarrow> ('a, 'b, 'e) pool" where
  "pool_run poolLimit iteratorFn [] st = st"
| "pool_run poolLimit iteratorFn (ev # evs) st =
     pool_run poolLimit iteratorFn evs (pool_step poolLimit iteratorFn ev st)"

text \<open>The transformations launched and not yet settled.\<close>

definition in_flight :: "('a, 'b, 'e) pool \<Rightarrow> nat" where
  "in_flight st = length (filter (\<lambda>t. t = Running) (tasks st))"

subsection \<open>Auxiliary definitions for the mapper's properties\<close>

text \<open>The launched items whose \<^verbatim>\<open>e\<close> is not fulfilled.\<close>

definition unfulfilled :: "('b, 'e) task list \<Rightarrow> nat set" where
  "unfulfilled ts = {i. i < length ts \<and> \<not> fulfilled (ts ! i)}"

definition pool_inv :: "int \<Rightarrow> ('a, 'b, 'e) pool \<Rightarrow> bool" where
  "pool_inv L st =
     (distinct (executing st)
      \<and> set (executing st) = unfulfilled (tasks st)
      \<and> int (length (executing st)) \<le> L
      \<and> (at st = AtForAwait \<longrightarrow> int (length (executing st)) < L)
      \<and> (at st = AtRace \<and> combinator st = Some True \<longrightarrow> int (length (executing st)) < L))"

text \<open>A transformation that raises on input 1.\<close>

definition ok2 :: "nat \<Rightarrow> string + nat" where
  "ok2 x = (if x = 1 then Inl ''boom'' else Inr (x * 10))"

text \<open>The states of a run on an empty source.\<close>

definition idle :: "('a, 'b, 'e) pool \<Rightarrow> bool" where
  "idle st =
     (source st = [] \<and> tasks st = [] \<and> executing st = []
      \<and> ((at st = AtForAwait \<and> written st = [])
         \<or> (at st = AtAll \<and> combinator st = Some True \<and> written st = [])
         \<or> (at st = Finished \<and> written st = [WriterClosed])))"

section \<open>Stream multiplexer: class \<^verbatim>\<open>MuxAsyncIterator\<close> (async/mux_async_iterator.ts)\<close>

text \<open>
  A registered source is an async iterator; the model gives it the values its
  \<^verbatim>\<open>next()\<close> calls will produce, and how it ends: exhausted (\<open>None\<close>) or by
  throwing (\<open>Some e\<close>). Sources are named by their position in \<open>iterators\<close>, and
  \<open>pulls\<close> holds, per source, whether a \<^verbatim>\<open>next()\<close> call is outstanding.

  The events are the points at which a job runs:
  \<^item> \<open>Add it\<close>: \<^verbatim>\<open>add(iterable)\<close>;
  \<^item> \<open>PullSettles k\<close>: the outstanding \<^verbatim>\<open>next()\<close> of source \<open>k\<close> settles and the rest
    of \<^verbatim>\<open>callIteratorNext\<close> runs;
  \<^item> \<open>ConsumerNext\<close>: the consumer asks the generator \<^verbatim>\<open>iterate()\<close> for its next
    result, which starts it or continues it after a \<^verbatim>\<open>yield\<close>;
  \<^item> \<open>SignalWakes\<close>: the generator continues after \<^verbatim>\<open>await this.signal\<close>.
  The generator's position is \<open>gen\<close>; \<open>GenYield i k\<close> is the \<^verbatim>\<open>yield\<close> of entry \<open>i\<close>
  of \<open>yields\<close>, with the local \<^verbatim>\<open>iterator\<close> being source \<open>k\<close>. \<open>delivered\<close> is what
  the consumer has received. \<^verbatim>\<open>this.signal\<close> is a deferred of the first section;
  \<^verbatim>\<open>this.signal.resolve()\<close> awaits \<^verbatim>\<open>undefined\<close>, which continues in the next
  microtask: the model runs the call and its continuation together.
\<close>

type_synonym ('v, 'e) iterator = "'v list \<times> 'e option"

datatype pull = Idle | Pulling | Failed | Exhausted

datatype 'e gen_pc = GenStart | GenAwaitSignal | GenYield nat nat | GenReturned | GenThrew 'e

record ('v, 'e) mux =
  iteratorCount :: int
  yields :: "(nat \<times> 'v) list"
  throws :: "'e list"
  signal :: "(unit, 'e) deferred"
  iterators :: "('v, 'e) iterator list"
  pulls :: "pull list"
  gen :: "'e gen_pc"
  delivered :: "'v list"

datatype ('v, 'e) mux_event =
  Add "('v, 'e) iterator" | PullSettles nat | ConsumerNext | SignalWakes

definition MuxAsyncIterator :: "('v, 'e) mux" where
  "MuxAsyncIterator =
     \<lparr>iteratorCount = 0, yields = [], throws = [], signal = deferred, iterators = [],
      pulls = [], gen = GenStart, delivered = []\<rparr>"

text \<open>\<^verbatim>\<open>this.signal.resolve()\<close>.\<close>

definition signal_resolve :: "(unit, 'e) deferred \<Rightarrow> (unit, 'e) deferred" where
  "signal_resolve d = snd (resolve_resume (length (suspended d)) (resolve_call (Plain ()) d))"

text \<open>\<^verbatim>\<open>callIteratorNext(iterator)\<close>, up to \<^verbatim>\<open>await iterator.next()\<close>.\<close>

definition callIteratorNext :: "nat \<Rightarrow> ('v, 'e) mux \<Rightarrow> ('v, 'e) mux" where
  "callIteratorNext k m = m\<lparr>pulls := (pulls m)[k := Pulling]\<rparr>"

text \<open>\<^verbatim>\<open>add(iterable) { ++this.iteratorCount; this.callIteratorNext(...) }\<close>\<close>

definition add :: "('v, 'e) iterator \<Rightarrow> ('v, 'e) mux \<Rightarrow> ('v, 'e) mux" where
  "add it m =
     callIteratorNext (length (iterators m))
       (m\<lparr>iteratorCount := iteratorCount m + 1, iterators := iterators m @ [it],
          pulls := pulls m @ [Idle]\<rparr>)"

text \<open>The rest of \<^verbatim>\<open>callIteratorNext\<close>: a value is pushed on \<^verbatim>\<open>yields\<close>,
  exhaustion decrements the count, a failure is pushed on \<^verbatim>\<open>throws\<close> (and does not
  decrement the count); then the signal is resolved.\<close>

definition pull_settles :: "nat \<Rightarrow> ('v, 'e) mux \<Rightarrow> ('v, 'e) mux" where
  "pull_settles k m =
     (if k < length (pulls m) \<and> k < length (iterators m) \<and> pulls m ! k = Pulling then
        (let m1 =
           (case iterators m ! k of
              (v # vs, en) \<Rightarrow>
                m\<lparr>yields := yields m @ [(k, v)], iterators := (iterators m)[k := (vs, en)],
                  pulls := (pulls m)[k := Idle]\<rparr>
            | ([], None) \<Rightarrow>
                m\<lparr>iteratorCount := iteratorCount m - 1, pulls := (pulls m)[k := Exhausted]\<rparr>
            | ([], Some e) \<Rightarrow>
                m\<lparr>throws := throws m @ [e], pulls := (pulls m)[k := Failed]\<rparr>)
         in m1\<lparr>signal := signal_resolve (signal m1)\<rparr>)
      else m)"

text \<open>\<^verbatim>\<open>while (this.iteratorCount > 0) { await this.signal; ...\<close>; after the loop the
  generator returns.\<close>

definition loop_head :: "('v, 'e) mux \<Rightarrow> ('v, 'e) mux" where
  "loop_head m =
     (if iteratorCount m > 0 then m\<lparr>gen := GenAwaitSignal\<rparr> else m\<lparr>gen := GenReturned\<rparr>)"

text \<open>After the \<^verbatim>\<open>for\<close> loop over \<^verbatim>\<open>yields\<close>:
  \<^verbatim>\<open>if (this.throws.length) { for (const e of this.throws) { throw e; } ... }\<close> throws the
  first element; otherwise \<^verbatim>\<open>yields\<close> is emptied, the signal replaced, and the loop
  test follows.\<close>

definition after_drain :: "('v, 'e) mux \<Rightarrow> ('v, 'e) mux" where
  "after_drain m =
     (case throws m of
        e # es \<Rightarrow> m\<lparr>gen := GenThrew e\<rparr>
      | [] \<Rightarrow> loop_head (m\<lparr>yields := [], signal := deferred\<rparr>))"

text \<open>\<^verbatim>\<open>for (let i = 0; i < this.yields.length; i++)\<close> at index \<open>i\<close>: the
  \<^verbatim>\<open>yield value\<close> hands the value to the consumer and suspends the generator.\<close>

definition drain :: "nat \<Rightarrow> ('v, 'e) mux \<Rightarrow> ('v, 'e) mux" where
  "drain i m =
     (if i < length (yields m)
      then m\<lparr>delivered := delivered m @ [snd (yields m ! i)],
             gen := GenYield i (fst (yields m ! i))\<rparr>
      else after_drain m)"

text \<open>The consumer's request: it starts the generator, or continues it after the
  \<^verbatim>\<open>yield\<close> with \<^verbatim>\<open>this.callIteratorNext(iterator)\<close> and the next index.\<close>

definition consumer_next :: "('v, 'e) mux \<Rightarrow> ('v, 'e) mux" where
  "consumer_next m =
     (case gen m of
        GenStart \<Rightarrow> loop_head m
      | GenYield i k \<Rightarrow> drain (Suc i) (callIteratorNext k m)
      | _ \<Rightarrow> m)"

text \<open>The generator continues after \<^verbatim>\<open>await this.signal\<close>, once the signal is
  fulfilled.\<close>

definition signal_wakes :: "('v, 'e) mux \<Rightarrow> ('v, 'e) mux" where
  "signal_wakes m =
     (if gen m = GenAwaitSignal \<and> promise (signal m) \<noteq> None then drain 0 m else m)"

fun mux_step :: "('v, 'e) mux_event \<Rightarrow> ('v, 'e) mux \<Rightarrow> ('v, 'e) mux" where
  "mux_step (Add it) m = add it m"
| "mux_step (PullSettles k) m = pull_settles k m"
| "mux_step ConsumerNext m = consumer_next m"
| "mux_step SignalWakes m = signal_wakes m"

fun mux_run :: "('v, 'e) mux_event list \<Rightarrow> ('v, 'e) mux \<Rightarrow> ('v, 'e) mux" where
  "mux_run [] m = m"
| "mux_run (ev # evs) m = mux_run evs (mux_step ev m)"

subsection \<open>Auxiliary definitions for the multiplexer's properties\<close>

text \<open>The generator has neither returned nor thrown.\<close>

fun alive :: "'e gen_pc \<Rightarrow> bool" where
  "alive GenReturned = False"
| "alive (GenThrew e) = False"
| "alive _ = True"

text \<open>The sources whose value is queued, or handed to the consumer, and that have not
  been pulled again.\<close>

definition waiting :: "('v, 'e) mux \<Rightarrow> nat list" where
  "waiting m =
     (case gen m of
        GenYield i k \<Rightarrow> k # map fst (drop (Suc i) (yields m))
      | GenStart \<Rightarrow> map fst (yields m)
      | GenAwaitSignal \<Rightarrow> map fst (yields m)
      | _ \<Rightarrow> [])"

text \<open>The number of sources that have not reported exhaustion.\<close>

definition active :: "pull list \<Rightarrow> int" where
  "active ps = int (length (filter (\<lambda>p. p \<noteq> Exhausted) ps))"

definition core :: "('v, 'e) mux \<Rightarrow> bool" where
  "core m =
     (length (pulls m) = length (iterators m)
      \<and> iteratorCount m = active (pulls m)
      \<and> (throws m \<noteq> [] \<longrightarrow> Failed \<in> set (pulls m)))"

definition idle_all :: "pull list \<Rightarrow> nat list \<Rightarrow> bool" where
  "idle_all ps ks = (distinct ks \<and> (\<forall>k\<in>set ks. k < length ps \<and> ps ! k = Idle))"

definition mux_inv :: "('v, 'e) mux \<Rightarrow> bool" where
  "mux_inv m =
     (core m \<and> idle_all (pulls m) (waiting m)
      \<and> (gen m = GenAwaitSignal \<and> iteratorCount m \<le> 0 \<longrightarrow> promise (signal m) \<noteq> None)
      \<and> (\<forall>i k. gen m = GenYield i k \<longrightarrow> i < length (yields m)))"

text \<open>Once a failure has accumulated the signal is resolved; and at a \<^verbatim>\<open>yield\<close> the
  entries of \<open>yields\<close> up to the current one are the last values delivered.\<close>

definition cycle_inv :: "('v, 'e) mux \<Rightarrow> bool" where
  "cycle_inv m =
     ((throws m \<noteq> [] \<longrightarrow> promise (signal m) \<noteq> None)
      \<and> (\<forall>i k. gen m = GenYield i k \<longrightarrow>
            i < length (yields m)
            \<and> (\<exists>before. delivered m = before @ map snd (take (Suc i) (yields m)))))"

text \<open>The first accumulated failure is \<open>e\<close>, and the generator is running or has
  thrown \<open>e\<close>.\<close>

definition raising :: "'e \<Rightarrow> 'e list \<Rightarrow> ('v, 'e) mux \<Rightarrow> bool" where
  "raising e es m =
     ((\<exists>more. throws m = e # es @ more) \<and> (alive (gen m) \<or> gen m = GenThrew e))"

text \<open>Two values are queued when a failure arrives, and a third value is queued while
  the first two are being yielded.\<close>

definition mid_drain :: "(nat, string) mux_event list" where
  "mid_drain =
     [Add ([5, 7], None), Add ([], Some ''e''), Add ([6], None), ConsumerNext,
      PullSettles 0, PullSettles 2, PullSettles 1]"

text \<open>Two sources that fail at once and one that has a value.\<close>

definition two_failures :: "(nat, string) mux_event list" where
  "two_failures =
     [Add ([], Some ''e1''), Add ([], Some ''e2''), Add ([5], None), ConsumerNext,
      PullSettles 0, PullSettles 1]"

section \<open>Deferred signal: properties\<close>

lemma settle_Some [simp]: "settle x (Some y) = Some y"
  by (simp add: settle_def)

lemma settle_None [simp]: "settle x None = Some x"
  by (simp add: settle_def)

lemma settle_not_None [simp]: "settle x p \<noteq> None"
  by (cases p) simp_all

lemma dstep_promise_kept: "promise d = Some x \<Longrightarrow> promise (dstep c d) = Some x"
  by (cases c)
    (auto simp: resolve_call_def reject_def resolve_resume_def split: awaited.splits)

lemma dstep_state_left: "state d \<noteq> Pending \<Longrightarrow> state (dstep c d) \<noteq> Pending"
  by (cases c)
    (auto simp: resolve_call_def reject_def resolve_resume_def split: awaited.splits)

lemma dstep_agree: "agree d \<Longrightarrow> agree (dstep c d)"
  by (cases c)
    (auto simp: agree_def resolve_call_def reject_def resolve_resume_def
      split: awaited.splits)

lemma drun_promise_kept: "promise d = Some x \<Longrightarrow> promise (drun cs d) = Some x"
  by (induction cs arbitrary: d) (simp_all add: dstep_promise_kept)

lemma drun_state_left: "state d \<noteq> Pending \<Longrightarrow> state (drun cs d) \<noteq> Pending"
  by (induction cs arbitrary: d) (simp_all add: dstep_state_left)

lemma drun_agree: "agree d \<Longrightarrow> agree (drun cs d)"
  by (induction cs arbitrary: d) (simp_all add: dstep_agree)

lemma drun_append: "drun (cs @ cs') d = drun cs' (drun cs d)"
  by (induction cs arbitrary: d) simp_all

text \<open>
  C5, as stated, fails: \<^verbatim>\<open>reject\<close> assigns \<open>state\<close> with no test of its current
  value. On a deferred that \<^verbatim>\<open>resolve(1)\<close> has fulfilled, a later \<^verbatim>\<open>reject(2)\<close>
  is not a no-op: the observable state changes from fulfilled to rejected (while the
  Promise keeps its first settlement).
\<close>

theorem deferred_state_overwritten:
  "state (drun [CallResolve (Plain (1::nat)), Resume 0] deferred) = Fulfilled
   \<and> promise (drun [CallResolve (Plain (1::nat)), Resume 0] deferred) = Some (ResolvedWith 1)
   \<and> state (drun [CallResolve (Plain (1::nat)), Resume 0, CallReject (2::nat)] deferred) = Rejected
   \<and> promise (drun [CallResolve (Plain (1::nat)), Resume 0, CallReject (2::nat)] deferred)
       = Some (ResolvedWith 1)"
  by (simp add: deferred_def resolve_call_def resolve_resume_def reject_def drop_nth_def)

text \<open>
  C5, amended: for every sequence of \<^verbatim>\<open>resolve\<close>/\<^verbatim>\<open>reject\<close> calls (and every order
  in which the suspended \<^verbatim>\<open>resolve\<close> calls continue) on a fresh deferred, the state
  has left pending exactly when the Promise has been settled; once the Promise is
  settled, no further call changes its settlement; and once the state has left pending,
  it never is pending again.
\<close>

theorem deferred_settles_once:
  "((state (drun cs deferred) = Pending) = (promise (drun cs deferred) = None))
   \<and> (promise (drun cs deferred) = Some x \<longrightarrow> promise (drun (cs @ cs') deferred) = Some x)
   \<and> (state (drun cs deferred) \<noteq> Pending \<longrightarrow> state (drun (cs @ cs') deferred) \<noteq> Pending)"
proof -
  have "agree (deferred :: ('a, 'b) deferred)"
    by (simp add: agree_def deferred_def)
  then have "agree (drun cs (deferred :: ('a, 'b) deferred))"
    by (rule drun_agree)
  then show ?thesis
    by (simp add: agree_def drun_append drun_promise_kept drun_state_left)
qed

theorem deferred_settles_once_witness:
  "promise (drun [CallReject (7::nat), CallResolve (Plain (1::nat)), Resume 0] deferred)
     = Some (RejectedWith 7)
   \<and> state (drun [CallReject (7::nat), CallResolve (Plain (1::nat)), Resume 0] deferred)
     \<noteq> Pending"
  using deferred_settles_once [of "[CallReject (7::nat)]" "RejectedWith 7"
      "[CallResolve (Plain (1::nat)), Resume 0]"]
  by (simp add: deferred_def reject_def)

text \<open>
  C9: a \<^verbatim>\<open>resolve\<close> call whose argument is an awaitable that rejects leaves the
  deferred as it was: \<^verbatim>\<open>await value\<close> throws inside the \<^verbatim>\<open>async\<close> method, so
  neither \<^verbatim>\<open>state = "fulfilled"\<close> nor the Promise's \<^verbatim>\<open>resolve\<close> is reached. The
  rejection ends the promise returned by the call itself; a fresh deferred stays
  pending and unsettled.
\<close>

theorem resolve_with_rejecting_awaitable:
  "resolve_resume (length (suspended d)) (resolve_call (Rejects e) d)
     = (Some (Inl e), d)
   \<and> state (drun [CallResolve (Rejects e), Resume 0] deferred) = Pending
   \<and> promise (drun [CallResolve (Rejects e), Resume 0] deferred) = None"
  by (simp add: resolve_resume_def resolve_call_def drop_nth_def deferred_def)

section \<open>HTTP server core: properties\<close>


lemma closeHttpConn_closed [simp]: "closed (closeHttpConn c s) = closed s"
  by (simp add: closeHttpConn_def untrackHttpConnection_def Let_def)

lemma closeHttpConn_listeners [simp]: "listeners (closeHttpConn c s) = listeners s"
  by (simp add: closeHttpConn_def untrackHttpConnection_def Let_def)

lemma fold_closeHttpConn_closed [simp]: "closed (fold closeHttpConn cs s) = closed s"
  by (induction cs arbitrary: s) simp_all

lemma fold_closeHttpConn_listeners [simp]:
  "listeners (fold closeHttpConn cs s) = listeners s"
  by (induction cs arbitrary: s) simp_all

lemma close_Inr: "close s = Inr s' \<Longrightarrow> closed s' \<and> listeners s' = []"
  by (auto simp: close_def Let_def split: if_splits)

lemma close_closed: "closed s \<Longrightarrow> close s = Inl (Http ERROR_SERVER_CLOSED)"
  by (simp add: close_def)

lemma respond_closed [simp]: "closed (snd (respond ev c ci s)) = closed s"
  by (simp add: respond_def split: sum.splits)

lemma respond_listeners [simp]: "listeners (snd (respond ev c ci s)) = listeners s"
  by (simp add: respond_def split: sum.splits)

lemma serveHttp_head_closed [simp]: "closed (fst (serveHttp_head s k)) = closed s"
  by (simp add: serveHttp_head_def)

lemma serveHttp_head_listeners [simp]: "listeners (fst (serveHttp_head s k)) = listeners s"
  by (simp add: serveHttp_head_def)

lemma serveHttp_step_closed [simp]: "closed (fst (serveHttp_step e (s, k))) = closed s"
  by (simp add: serveHttp_step_def Let_def split: conn_event.splits)

lemma serveHttp_step_listeners [simp]:
  "listeners (fst (serveHttp_step e (s, k))) = listeners s"
  by (simp add: serveHttp_step_def Let_def split: conn_event.splits)

lemma serve_finally_closed [simp]: "closed (serve_finally l s) = closed s"
  by (simp add: serve_finally_def untrackListener_def Let_def)

lemma serve_finally_inv: "srv_inv s \<Longrightarrow> srv_inv (serve_finally l s)"
  by (simp add: srv_inv_def serve_finally_def untrackListener_def set_delete_def Let_def)

lemma accept_head_closed [simp]: "closed (fst (accept_head s a)) = closed s"
  by (simp add: accept_head_def)

lemma accept_head_inv: "srv_inv s \<Longrightarrow> srv_inv (fst (accept_head s a))"
  by (simp add: accept_head_def serve_finally_inv)

lemma serveHttp_closed [simp]: "closed (fst (serveHttp c ci s)) = closed s"
  by (simp add: serveHttp_def)

lemma serveHttp_listeners [simp]: "listeners (fst (serveHttp c ci s)) = listeners s"
  by (simp add: serveHttp_def)

lemma trackHttpConnection_closed [simp]: "closed (trackHttpConnection c s) = closed s"
  by (simp add: trackHttpConnection_def)

lemma trackHttpConnection_listeners [simp]:
  "listeners (trackHttpConnection c s) = listeners s"
  by (simp add: trackHttpConnection_def)

lemma srv_inv_cong: "closed s' = closed s \<Longrightarrow> listeners s' = listeners s \<Longrightarrow> srv_inv s \<Longrightarrow> srv_inv s'"
  by (simp add: srv_inv_def)

lemma accept_step_closed [simp]: "closed (fst (fst (accept_step e (s, a)))) = closed s"
  by (simp add: accept_step_def Let_def split: accept_pc.splits accept_event.splits option.splits)

lemma accept_step_inv: "srv_inv s \<Longrightarrow> srv_inv (fst (fst (accept_step e (s, a))))"
  by (auto simp: accept_step_def Let_def serve_finally_inv intro!: accept_head_inv
      elim: srv_inv_cong[rotated 2]
      split: accept_pc.splits accept_event.splits option.splits)


lemma serve_closed: "closed s \<Longrightarrow> serve l s = Inl (Http ERROR_SERVER_CLOSED)"
  by (simp add: serve_def)

lemma serve_Inr:
  "serve l s = Inr sa \<Longrightarrow> \<not> closed (fst sa)"
  by (auto simp: serve_def accept_head_def trackListener_def split: if_splits)

lemma listenAndServe_Inr: "listenAndServe listen s = Inr sa \<Longrightarrow> \<not> closed (fst sa)"
  by (auto simp: listenAndServe_def split: if_splits sum.splits dest: serve_Inr)

lemma listenAndServeTls_Inr:
  "listenAndServeTls listenTls cf kf s = Inr sa \<Longrightarrow> \<not> closed (fst sa)"
  by (auto simp: listenAndServeTls_def split: if_splits sum.splits dest: serve_Inr)

lemma serve_Inr_open: "serve l s = Inr sa \<Longrightarrow> \<not> closed s"
  by (auto simp: serve_def split: if_splits)

lemma listenAndServe_Inr_open: "listenAndServe listen s = Inr sa \<Longrightarrow> \<not> closed s"
  by (auto simp: listenAndServe_def split: if_splits)

lemma listenAndServeTls_Inr_open:
  "listenAndServeTls listenTls cf kf s = Inr sa \<Longrightarrow> \<not> closed s"
  by (auto simp: listenAndServeTls_def split: if_splits)

lemma sys_step_inv:
  assumes "srv_inv (srv y)"
  shows "srv_inv (srv (sys_step e y))"
proof (cases e)
  case (CallServe l)
  with assms show ?thesis
    by (auto simp: started_def srv_inv_def split: sum.splits dest: serve_Inr)
next
  case (CallListenAndServe listen)
  with assms show ?thesis
    by (auto simp: started_def srv_inv_def split: sum.splits dest: listenAndServe_Inr)
next
  case (CallListenAndServeTls listenTls cf kf)
  with assms show ?thesis
    by (auto simp: started_def srv_inv_def split: sum.splits dest: listenAndServeTls_Inr)
next
  case CallClose
  with assms show ?thesis
    by (auto simp: srv_inv_def split: sum.splits dest: close_Inr)
next
  case (AcceptEvent i ev)
  with assms show ?thesis
    by (simp add: Let_def accept_step_inv)
next
  case (ConnEvent i ev)
  with assms show ?thesis
    by (auto simp: Let_def elim: srv_inv_cong[rotated 2])
qed

lemma sys_step_closed:
  assumes "closed (srv y)"
  shows "closed (srv (sys_step e y))"
proof (cases e)
  case (CallServe l)
  with assms show ?thesis
    by (auto simp: started_def split: sum.splits dest: serve_Inr_open)
next
  case (CallListenAndServe listen)
  with assms show ?thesis
    by (auto simp: started_def split: sum.splits dest: listenAndServe_Inr_open)
next
  case (CallListenAndServeTls listenTls cf kf)
  with assms show ?thesis
    by (auto simp: started_def split: sum.splits dest: listenAndServeTls_Inr_open)
next
  case CallClose
  with assms show ?thesis
    by (auto split: sum.splits dest: close_Inr)
next
  case (AcceptEvent i ev)
  with assms show ?thesis
    by (simp add: Let_def)
next
  case (ConnEvent i ev)
  with assms show ?thesis
    by (simp add: Let_def)
qed

lemma sys_run_inv: "srv_inv (srv y) \<Longrightarrow> srv_inv (srv (sys_run es y))"
  by (induction es arbitrary: y) (simp_all add: sys_step_inv)

lemma sys_run_closed: "closed (srv y) \<Longrightarrow> closed (srv (sys_run es y))"
  by (induction es arbitrary: y) (simp_all add: sys_step_closed)

lemma sys_run_append: "sys_run (es @ es') y = sys_run es' (sys_run es y)"
  by (induction es arbitrary: y) simp_all

lemma CallClose_closed: "closed (srv (sys_step CallClose y))"
  by (auto simp: close_def Let_def split: sum.splits if_splits)

lemma new_sys_inv: "srv_inv (srv (new_sys i))"
  by (simp add: new_sys_def Server_def srv_inv_def)

lemma after_close:
  "closed (srv (sys_run (es1 @ CallClose # es2) (new_sys i)))
   \<and> listeners (srv (sys_run (es1 @ CallClose # es2) (new_sys i))) = []"
proof -
  let ?y = "sys_run (es1 @ CallClose # es2) (new_sys i)"
  have c: "closed (srv ?y)"
    by (simp only: sys_run_append sys_run.simps) (intro sys_run_closed CallClose_closed)
  have "srv_inv (srv ?y)"
    by (rule sys_run_inv) (rule new_sys_inv)
  with c show ?thesis by (simp add: srv_inv_def)
qed

text \<open>
  C3: take any server built by the constructor and any history of calls and loop events
  in which \<^verbatim>\<open>close()\<close> is called at some point. Whatever happens before and after
  that call, \<^verbatim>\<open>addrs\<close> is empty afterwards, and \<^verbatim>\<open>serve\<close>,
  \<^verbatim>\<open>listenAndServe\<close>, \<^verbatim>\<open>listenAndServeTls\<close> and \<^verbatim>\<open>close\<close> all fail with
  the server-closed error.
\<close>

theorem closed_server_refuses:
  "addrs (srv (sys_run (es1 @ CallClose # es2) (new_sys i))) = []
   \<and> serve l (srv (sys_run (es1 @ CallClose # es2) (new_sys i)))
       = Inl (Http ERROR_SERVER_CLOSED)
   \<and> listenAndServe listen (srv (sys_run (es1 @ CallClose # es2) (new_sys i)))
       = Inl (Http ERROR_SERVER_CLOSED)
   \<and> listenAndServeTls listenTls certFile keyFile
         (srv (sys_run (es1 @ CallClose # es2) (new_sys i)))
       = Inl (Http ERROR_SERVER_CLOSED)
   \<and> close (srv (sys_run (es1 @ CallClose # es2) (new_sys i)))
       = Inl (Http ERROR_SERVER_CLOSED)"
  using after_close [of es1 es2 i]
  by (simp add: addrs_def serve_def listenAndServe_def listenAndServeTls_def close_def)

text \<open>
  C10: when the request handler raises and the error handler raises as well, the
  dispatch ends with the error handler's failure as the outcome of \<^verbatim>\<open>#respond\<close>,
  and the server is exactly as before: nothing was sent, the connection was neither
  closed nor untracked. The per-connection loop, which does not await the dispatch,
  goes on waiting for the next request.
\<close>

theorem respond_both_raise:
  "handler s (request ev) (connInfo_of k) = Inl e1 \<Longrightarrow> onError s e1 = Inl e2 \<Longrightarrow>
   cpc k = AwaitRequest \<Longrightarrow> \<not> closed s \<Longrightarrow>
   respond ev (httpConn_of k) (connInfo_of k) s = (Inl e2, s)
   \<and> serveHttp_step (NextRequest ev) (s, k) = (s, k)"
  by (simp add: respond_def serveHttp_step_def serveHttp_head_def Let_def)

theorem respond_both_raise_witness:
  "respond \<lparr>request = ''/'', respondWith = (\<lambda>r. True)\<rparr> 7 (''local'', ''remote'')
      (trackHttpConnection 7 (Server failing))
     = (Inl (OtherError ''onError''), trackHttpConnection 7 (Server failing))
   \<and> serveHttp_step (NextRequest \<lparr>request = ''/'', respondWith = (\<lambda>r. True)\<rparr>)
        (trackHttpConnection 7 (Server failing),
         \<lparr>httpConn_of = 7, connInfo_of = (''local'', ''remote''), cpc = AwaitRequest\<rparr>)
     = (trackHttpConnection 7 (Server failing),
        \<lparr>httpConn_of = 7, connInfo_of = (''local'', ''remote''), cpc = AwaitRequest\<rparr>)
   \<and> httpConnections (trackHttpConnection 7 (Server failing)) = [7]
   \<and> effects (trackHttpConnection 7 (Server failing)) = []"
  using respond_both_raise [of "trackHttpConnection 7 (Server failing)"
      "\<lparr>request = ''/'', respondWith = (\<lambda>r. True)\<rparr>"
      "\<lparr>httpConn_of = 7, connInfo_of = (''local'', ''remote''), cpc = AwaitRequest\<rparr>"
      "OtherError ''handler''" "OtherError ''onError''"]
  by (simp add: Server_def failing_def trackHttpConnection_def set_add_def)

















section \<open>Bounded concurrent mapper: properties\<close>

lemma unfulfilled_less: "i \<in> unfulfilled ts \<Longrightarrow> i < length ts"
  by (simp add: unfulfilled_def)

lemma unfulfilled_append_Running:
  "unfulfilled (ts @ [Running]) = insert (length ts) (unfulfilled ts)"
  by (auto simp: unfulfilled_def nth_append less_Suc_eq)

lemma unfulfilled_update_same:
  "i < length ts \<Longrightarrow> fulfilled t = fulfilled (ts ! i) \<Longrightarrow>
   unfulfilled (ts[i := t]) = unfulfilled ts"
  by (auto simp: unfulfilled_def nth_list_update)

lemma unfulfilled_update_fulfil:
  "i < length ts \<Longrightarrow> fulfilled t \<Longrightarrow> unfulfilled (ts[i := t]) = unfulfilled ts - {i}"
  by (auto simp: unfulfilled_def nth_list_update)

lemma writer_write_fields [simp]:
  "executing (writer_write x st) = executing st"
  "tasks (writer_write x st) = tasks st"
  "at (writer_write x st) = at st"
  "combinator (writer_write x st) = combinator st"
  "watched (writer_write x st) = watched st"
  "source (writer_write x st) = source st"
  "items (writer_write x st) = items st"
  by (simp_all add: writer_write_def)

lemma notify_fields [simp]:
  "executing (notify i st) = executing st"
  "tasks (notify i st) = tasks st"
  "at (notify i st) = at st"
  "watched (notify i st) = watched st"
  "source (notify i st) = source st"
  "items (notify i st) = items st"
  "written (notify i st) = written st"
  by (simp_all add: notify_def split: pool_pc.splits)

lemma notify_race:
  "at st = AtRace \<Longrightarrow> combinator (notify i st) = Some True
   \<Longrightarrow> combinator st = Some True \<or> e_fulfilled st i"
  by (auto simp: notify_def split: if_splits)

lemma race_outcome_not_fulfilled:
  assumes a: "\<forall>i\<in>set es. \<not> e_fulfilled st i"
  shows "race_outcome st es \<noteq> Some True"
proof (cases "filter (\<lambda>i. e_fulfilled st i \<or> e_rejected st i) es")
  case Nil
  then show ?thesis by (simp add: race_outcome_def)
next
  case (Cons i js)
  then have "i \<in> set (filter (\<lambda>i. e_fulfilled st i \<or> e_rejected st i) es)" by simp
  then have "i \<in> set es" by simp
  with a have "\<not> e_fulfilled st i" by blast
  with Cons show ?thesis by (simp add: race_outcome_def)
qed

lemma pool_invI:
  "distinct (executing st) \<Longrightarrow> set (executing st) = unfulfilled (tasks st) \<Longrightarrow>
   int (length (executing st)) \<le> L \<Longrightarrow>
   (at st = AtForAwait \<Longrightarrow> int (length (executing st)) < L) \<Longrightarrow>
   (at st = AtRace \<Longrightarrow> combinator st = Some True \<Longrightarrow> int (length (executing st)) < L) \<Longrightarrow>
   pool_inv L st"
  by (simp add: pool_inv_def)

lemma launch_inv:
  assumes "pool_inv L st" "at st = AtForAwait"
  shows "pool_inv L (launch L item st)"
proof -
  let ?n = "length (tasks st)"
  let ?st1 = "st\<lparr>items := items st @ [item], tasks := tasks st @ [Running],
                  executing := executing st @ [?n]\<rparr>"
  from assms have d: "distinct (executing st)"
    and s: "set (executing st) = unfulfilled (tasks st)"
    and l: "int (length (executing st)) < L"
    by (simp_all add: pool_inv_def)
  have "?n \<notin> unfulfilled (tasks st)" using unfulfilled_less by blast
  then have d1: "distinct (executing ?st1)" using d s by simp
  have s1: "set (executing ?st1) = unfulfilled (tasks ?st1)"
    using s by (simp add: unfulfilled_append_Running)
  have nf: "\<forall>i\<in>set (executing ?st1). \<not> e_fulfilled ?st1 i"
    unfolding s1 by (simp add: e_fulfilled_def unfulfilled_def)
  have r: "race_outcome ?st1 (executing ?st1) \<noteq> Some True"
    by (rule race_outcome_not_fulfilled [OF nf])
  have l1: "int (length (executing ?st1)) \<le> L" using l by simp
  show ?thesis
  proof (cases "int (length (executing ?st1)) \<ge> L")
    case True
    then have e: "launch L item st = ?st1\<lparr>at := AtRace, watched := executing ?st1,
                 combinator := race_outcome ?st1 (executing ?st1)\<rparr>"
      by (simp add: launch_def Let_def)
    show ?thesis
      unfolding e
      by (rule pool_invI) (use d1 s1 l1 r in simp_all)
  next
    case False
    then have e: "launch L item st = ?st1\<lparr>at := AtForAwait\<rparr>"
      by (simp add: launch_def Let_def)
    show ?thesis
      unfolding e
      by (rule pool_invI) (use d1 s1 l1 False in simp_all)
  qed
qed

lemma pull_inv:
  assumes a: "pool_inv L st"
  shows "pool_inv L (pull L st)"
proof (cases "at st = AtForAwait")
  case False
  with a show ?thesis by (simp add: pull_def)
next
  case True
  show ?thesis
  proof (cases "source st")
    case Nil
    with a True show ?thesis by (simp add: pull_def pool_inv_def)
  next
    case (Cons item rest)
    have "pool_inv L (st\<lparr>source := rest\<rparr>)" using a by (simp add: pool_inv_def)
    moreover have "at (st\<lparr>source := rest\<rparr>) = AtForAwait" using True by simp
    ultimately have "pool_inv L (launch L item (st\<lparr>source := rest\<rparr>))"
      by (rule launch_inv)
    with True Cons show ?thesis by (simp add: pull_def)
  qed
qed

lemma settles_inv:
  assumes a: "pool_inv L st"
  shows "pool_inv L (settles f i st)"
proof (cases "i < length (tasks st) \<and> i < length (items st) \<and> tasks st ! i = Running")
  case False
  then have "settles f i st = st" by (auto simp: settles_def)
  with a show ?thesis by simp
next
  case True
  then have e: "settles f i st = st\<lparr>tasks := (tasks st)[i := Settled (f (items st ! i))]\<rparr>"
    by (simp add: settles_def)
  have "unfulfilled ((tasks st)[i := Settled (f (items st ! i))]) = unfulfilled (tasks st)"
    using True by (simp add: unfulfilled_update_same)
  with a show ?thesis unfolding e by (simp add: pool_inv_def)
qed

lemma reacts_inv:
  assumes "pool_inv L st"
  shows "pool_inv L (reacts i st)"
proof (cases "i < length (tasks st)")
  case False
  with assms show ?thesis by (simp add: reacts_def)
next
  case True
  from assms have d: "distinct (executing st)"
    and s: "set (executing st) = unfulfilled (tasks st)"
    and l: "int (length (executing st)) \<le> L"
    and l1: "at st = AtForAwait \<Longrightarrow> int (length (executing st)) < L"
    and l2: "at st = AtRace \<Longrightarrow> combinator st = Some True \<Longrightarrow> int (length (executing st)) < L"
    by (simp_all add: pool_inv_def)
  show ?thesis
  proof (cases "tasks st ! i")
    case Running
    with assms True show ?thesis by (simp add: reacts_def)
  next
    case (Reacted r)
    with assms True show ?thesis by (simp add: reacts_def)
  next
    case (Settled r)
    show ?thesis
    proof (cases r)
      case (Inl e)
      let ?st1 = "st\<lparr>tasks := (tasks st)[i := Reacted (Inl e)]\<rparr>"
      have r1: "reacts i st = notify i ?st1"
        using True Settled Inl by (simp add: reacts_def)
      have s1: "set (executing ?st1) = unfulfilled (tasks ?st1)"
        using s True Settled by (simp add: unfulfilled_update_same)
      have nf: "\<not> e_fulfilled ?st1 i" using True by (simp add: e_fulfilled_def)
      have c: "at st = AtRace \<Longrightarrow> combinator (notify i ?st1) = Some True
          \<Longrightarrow> combinator st = Some True"
        using notify_race [of ?st1 i] nf by simp
      show ?thesis
        unfolding r1
        by (rule pool_invI) (use d s1 l l1 l2 c in simp_all)
    next
      case (Inr v)
      let ?st1 = "writer_write (Wrote v) st"
      let ?st2 = "?st1\<lparr>executing := splice_indexOf i (executing ?st1),
                            tasks := (tasks ?st1)[i := Reacted (Inr v)]\<rparr>"
      have r1: "reacts i st = notify i ?st2"
        using True Settled Inr by (simp add: reacts_def Let_def)
      have mem: "i \<in> set (executing st)"
        unfolding s using True Settled by (simp add: unfulfilled_def)
      then have ex: "executing ?st2 = remove1 i (executing st)"
        by (simp add: splice_indexOf_def)
      have d2: "distinct (executing ?st2)" using d ex by simp
      have s2: "set (executing ?st2) = unfulfilled (tasks ?st2)"
        unfolding ex using d s True by (simp add: unfulfilled_update_fulfil)
      have "length (executing st) = Suc (length (remove1 i (executing st)))"
        using mem by (simp add: length_remove1) (cases "executing st"; simp)
      then have len: "int (length (executing ?st2)) < L"
        unfolding ex using l by simp
      show ?thesis
        unfolding r1
        by (rule pool_invI) (use d2 s2 len in simp_all)
    qed
  qed
qed

lemma enter_catch_inv: "pool_inv L st \<Longrightarrow> pool_inv L (enter_catch st)"
  by (simp add: enter_catch_def pool_inv_def)

lemma resume_main_inv:
  assumes a: "pool_inv L st"
  shows "pool_inv L (resume_main st)"
proof (cases "combinator st")
  case None
  with a show ?thesis by (simp add: resume_main_def)
next
  case (Some ok)
  show ?thesis
  proof (cases "at st")
    case AtForAwait
    with a Some show ?thesis by (simp add: resume_main_def)
  next
    case AtRace
    with a Some show ?thesis
      by (cases ok) (simp_all add: resume_main_def enter_catch_inv, simp add: pool_inv_def)
  next
    case AtAll
    with a Some show ?thesis
      by (cases ok) (simp_all add: resume_main_def enter_catch_inv, simp add: pool_inv_def)
  next
    case AtAllSettled
    with a Some show ?thesis by (simp add: resume_main_def pool_inv_def)
  next
    case Finished
    with a Some show ?thesis by (simp add: resume_main_def)
  qed
qed

lemma pool_step_inv: "pool_inv L st \<Longrightarrow> pool_inv L (pool_step L f ev st)"
  by (cases ev) (simp_all add: pull_inv settles_inv reacts_inv resume_main_inv)

lemma pool_run_inv: "pool_inv L st \<Longrightarrow> pool_inv L (pool_run L f evs st)"
  by (induction evs arbitrary: st) (simp_all add: pool_step_inv)

lemma pooledMap_inv: "1 \<le> L \<Longrightarrow> pool_inv L (pooledMap array)"
  by (simp add: pool_inv_def pooledMap_def unfulfilled_def)

lemma in_flight_le:
  assumes "pool_inv L st"
  shows "in_flight st \<le> length (executing st)"
proof -
  from assms have d: "distinct (executing st)"
    and s: "set (executing st) = unfulfilled (tasks st)"
    by (simp_all add: pool_inv_def)
  have "in_flight st = card {i. i < length (tasks st) \<and> tasks st ! i = Running}"
    by (simp add: in_flight_def length_filter_conv_card)
  also have "\<dots> \<le> card (unfulfilled (tasks st))"
  proof (rule card_mono)
    show "finite (unfulfilled (tasks st))" unfolding s [symmetric] by simp
    show "{i. i < length (tasks st) \<and> tasks st ! i = Running} \<subseteq> unfulfilled (tasks st)"
      by (auto simp: unfulfilled_def)
  qed
  also have "\<dots> = length (executing st)"
    unfolding s [symmetric] using d by (simp add: distinct_card)
  finally show ?thesis .
qed

lemma tasks_grow:
  assumes g: "length (tasks st) < length (tasks (pool_step L f ev st))"
  shows "at st = AtForAwait"
proof (cases ev)
  case Pull
  with g show ?thesis by (auto simp: pull_def split: if_splits)
next
  case (Settles i)
  with g show ?thesis by (simp add: settles_def split: if_splits)
next
  case (Reacts i)
  with g show ?thesis
    by (simp add: reacts_def Let_def split: if_splits task.splits sum.splits)
next
  case Continue
  with g show ?thesis
    by (simp add: resume_main_def enter_catch_def
        split: if_splits option.splits pool_pc.splits)
qed

text \<open>
  C1: for every limit \<open>L \<ge> 1\<close>, every finite input sequence, every transformation and
  every interleaving of the jobs, the number of transformations in flight (launched,
  not yet settled) never exceeds \<open>L\<close>; and whenever an event launches a new
  transformation, fewer than \<open>L\<close> are in flight at that moment.
\<close>

theorem pool_limit_respected:
  assumes "1 \<le> L"
  shows "int (in_flight (pool_run L f evs (pooledMap array))) \<le> L
    \<and> (length (tasks (pool_run L f evs (pooledMap array)))
         < length (tasks (pool_step L f ev (pool_run L f evs (pooledMap array))))
       \<longrightarrow> int (in_flight (pool_run L f evs (pooledMap array))) < L)"
proof -
  let ?st = "pool_run L f evs (pooledMap array)"
  have i: "pool_inv L ?st"
    by (rule pool_run_inv) (rule pooledMap_inv [OF assms])
  have le: "in_flight ?st \<le> length (executing ?st)" by (rule in_flight_le [OF i])
  from i have "int (length (executing ?st)) \<le> L"
    and "at ?st = AtForAwait \<Longrightarrow> int (length (executing ?st)) < L"
    by (simp_all add: pool_inv_def)
  with le tasks_grow [of ?st L f ev] show ?thesis by auto
qed

theorem pool_limit_respected_witness:
  "(1::int) \<le> 2
   \<and> int (in_flight (pool_run 2 ok2 [Pull] (pooledMap [1, 2, 3]))) \<le> 2
   \<and> length (tasks (pool_run 2 ok2 [Pull] (pooledMap [1, 2, 3])))
       < length (tasks (pool_step 2 ok2 Pull (pool_run 2 ok2 [Pull] (pooledMap [1, 2, 3]))))
   \<and> int (in_flight (pool_run 2 ok2 [Pull] (pooledMap [1, 2, 3]))) < 2"
  using pool_limit_respected [of 2 ok2 "[Pull]" "[1, 2, 3]" Pull]
  by (simp add: pooledMap_def pull_def launch_def Let_def in_flight_def)

lemma launch_low_limit: "L \<le> 1 \<Longrightarrow> launch L item st = launch 1 item st"
  by (simp add: launch_def Let_def)

lemma pull_low_limit:
  assumes "L \<le> 1"
  shows "pull L st = pull 1 st"
  by (simp only: pull_def launch_low_limit [OF assms])

lemma pool_step_low_limit: "L \<le> 1 \<Longrightarrow> pool_step L f ev st = pool_step 1 f ev st"
  using pull_low_limit [of L st] by (cases ev) simp_all

lemma pool_run_low_limit:
  assumes "L \<le> 1"
  shows "pool_run L f evs st = pool_run 1 f evs st"
proof (induction evs arbitrary: st)
  case Nil
  show ?case by simp
next
  case (Cons ev evs)
  show ?case
    by (simp only: pool_run.simps pool_step_low_limit [OF assms] Cons.IH)
qed

lemma idle_step:
  assumes "idle st"
  shows "idle (pool_step L f ev st)"
proof (cases ev)
  case Pull
  with assms show ?thesis
    by (auto simp: idle_def pull_def all_outcome_def)
next
  case (Settles i)
  with assms show ?thesis by (simp add: idle_def settles_def)
next
  case (Reacts i)
  with assms show ?thesis by (simp add: idle_def reacts_def)
next
  case Continue
  with assms show ?thesis
    by (auto simp: idle_def resume_main_def writer_write_def split: option.splits)
qed

lemma idle_run: "idle st \<Longrightarrow> idle (pool_run L f evs st)"
  by (induction evs arbitrary: st) (simp_all add: idle_step)

lemma finished_step:
  assumes "at st = Finished" "idle st"
  shows "pool_step L f ev st = st"
proof (cases ev)
  case Pull
  with assms show ?thesis by (simp add: pull_def)
next
  case (Settles i)
  with assms show ?thesis by (simp add: idle_def settles_def)
next
  case (Reacts i)
  with assms show ?thesis by (simp add: idle_def reacts_def)
next
  case Continue
  with assms show ?thesis by (simp add: resume_main_def split: option.splits)
qed

lemma finished_run: "at st = Finished \<Longrightarrow> idle st \<Longrightarrow> pool_run L f evs st = st"
  by (induction evs) (simp_all add: finished_step)

lemma idle_pooledMap: "idle (pooledMap [])"
  by (simp add: idle_def pooledMap_def)

text \<open>
  C8, as stated, fails: \<^verbatim>\<open>pooledMap\<close> never tests \<open>poolLimit\<close> but in
  \<^verbatim>\<open>executing.length >= poolLimit\<close>. With limit 0 the input is transformed and
  written, and the writer is closed: no configuration error.
\<close>

theorem pooledMap_limit_zero_proceeds:
  "written (pool_run 0 ok2 [Pull, Settles 0, Reacts 0, Continue, Pull, Continue]
      (pooledMap [2])) = [Wrote 20, WriterClosed]"
  by (simp add: pooledMap_def pull_def launch_def Let_def settles_def reacts_def
      resume_main_def writer_write_def notify_def race_outcome_def all_outcome_def
      e_fulfilled_def e_rejected_def splice_indexOf_def ok2_def)

text \<open>
  C8, amended: a limit below 1 is not rejected; \<^verbatim>\<open>pooledMap\<close> then runs exactly as
  with limit 1. For every empty source sequence, whatever the limit and the
  interleaving, nothing is written but the closing of the writer (no value, no failure
  event), and the run that pulls the end of the source and continues has closed it.
\<close>

theorem pooledMap_low_limit_and_empty_source:
  "(L < 1 \<longrightarrow> pool_run L f evs st = pool_run 1 f evs st)
   \<and> (written (pool_run L f evs (pooledMap [])) = []
      \<or> written (pool_run L f evs (pooledMap [])) = [WriterClosed])
   \<and> written (pool_run L f (Pull # Continue # evs) (pooledMap [])) = [WriterClosed]"
proof -
  have a: "L < 1 \<longrightarrow> pool_run L f evs st = pool_run 1 f evs st"
    using pool_run_low_limit [of L f evs st] by linarith
  have "idle (pool_run L f evs (pooledMap []))"
    by (rule idle_run) (rule idle_pooledMap)
  then have b: "written (pool_run L f evs (pooledMap [])) = []
      \<or> written (pool_run L f evs (pooledMap [])) = [WriterClosed]"
    by (auto simp: idle_def)
  let ?fin = "pool_run L f [Pull, Continue] (pooledMap [])"
  have f1: "at ?fin = Finished"
    by (simp add: pooledMap_def pull_def resume_main_def all_outcome_def)
  have "idle ?fin" by (rule idle_run) (rule idle_pooledMap)
  with f1 have "pool_run L f evs ?fin = ?fin" by (rule finished_run)
  then have c: "written (pool_run L f (Pull # Continue # evs) (pooledMap [])) = [WriterClosed]"
    by (simp add: pooledMap_def pull_def resume_main_def all_outcome_def writer_write_def)
  from a b c show ?thesis by blast
qed

text \<open>
  C2 on the code: limit 2, inputs 1 and 2, the transformation raises on 1. After the
  failure of input 1 has been processed (its \<^verbatim>\<open>e\<close> is rejected), the loop is below
  its limit and not waiting on any race, so the next \<open>Pull\<close> takes input 2 from the
  source and launches it. The run ends with the value of input 2 and one aggregate
  failure, as the last event.
\<close>

theorem pooledMap_pulls_after_failure:
  "tasks (pool_run 2 ok2 [Pull, Settles 0, Reacts 0] (pooledMap [1, 2]))
     = [Reacted (Inl ''boom'')]
   \<and> source (pool_run 2 ok2 [Pull, Settles 0, Reacts 0] (pooledMap [1, 2])) = [2]
   \<and> items (pool_run 2 ok2 [Pull, Settles 0, Reacts 0, Pull] (pooledMap [1, 2])) = [1, 2]
   \<and> tasks (pool_run 2 ok2 [Pull, Settles 0, Reacts 0, Pull] (pooledMap [1, 2]))
     = [Reacted (Inl ''boom''), Running]
   \<and> written (pool_run 2 ok2
        [Pull, Settles 0, Reacts 0, Pull, Continue, Settles 1, Reacts 1, Continue]
        (pooledMap [1, 2])) = [Wrote 20, WroteAggregateError [''boom'']]"
  by (simp add: pooledMap_def pull_def launch_def Let_def settles_def reacts_def
      resume_main_def writer_write_def notify_def race_outcome_def all_outcome_def
      allSettled_outcome_def enter_catch_def
      e_fulfilled_def e_rejected_def splice_indexOf_def ok2_def)

theorem pooledMap_low_limit_witness:
  "pool_run 0 ok2 [Pull, Settles 0, Reacts 0, Continue, Pull, Continue] (pooledMap [2])
     = pool_run 1 ok2 [Pull, Settles 0, Reacts 0, Continue, Pull, Continue] (pooledMap [2])"
  using pooledMap_low_limit_and_empty_source
    [of 0 ok2 "[Pull, Settles 0, Reacts 0, Continue, Pull, Continue]" "pooledMap [2]"]
  by simp

section \<open>Stream multiplexer: properties\<close>

lemma active_append [simp]: "active (ps @ qs) = active ps + active qs"
  by (simp add: active_def)

lemma active_Cons: "active (p # ps) = (if p = Exhausted then 0 else 1) + active ps"
  by (simp add: active_def)

lemma active_Nil [simp]: "active [] = 0"
  by (simp add: active_def)

lemma active_update:
  assumes "k < length ps"
  shows "active (ps[k := x]) =
     active ps - (if ps ! k = Exhausted then 0 else 1) + (if x = Exhausted then 0 else 1)"
proof -
  have "ps = take k ps @ ps ! k # drop (Suc k) ps"
    using assms by (simp add: id_take_nth_drop)
  then have a: "active ps = active (take k ps) + active (ps ! k # drop (Suc k) ps)"
    by (metis active_append)
  have "ps[k := x] = take k ps @ x # drop (Suc k) ps"
    using assms by (simp add: upd_conv_take_nth_drop)
  then have b: "active (ps[k := x]) = active (take k ps) + active (x # drop (Suc k) ps)"
    by (metis active_append)
  show ?thesis unfolding a b by (simp add: active_Cons)
qed

lemma active_pos: "k < length ps \<Longrightarrow> ps ! k \<noteq> Exhausted \<Longrightarrow> 0 < active ps"
proof -
  assume a: "k < length ps" "ps ! k \<noteq> Exhausted"
  then have "ps ! k \<in> set (filter (\<lambda>p. p \<noteq> Exhausted) ps)" by simp
  then have "filter (\<lambda>p. p \<noteq> Exhausted) ps \<noteq> []" by force
  then show ?thesis by (simp add: active_def)
qed

lemma active_Failed: "Failed \<in> set ps \<Longrightarrow> 0 < active ps"
  by (metis active_pos in_set_conv_nth pull.distinct(11))

lemma promise_signal_resolve [simp]: "promise (signal_resolve d) \<noteq> None"
  by (simp add: signal_resolve_def resolve_resume_def resolve_call_def)

lemma Failed_update:
  "Failed \<in> set ps \<Longrightarrow> ps ! k \<noteq> Failed \<Longrightarrow> Failed \<in> set (ps[k := x])"
  by (metis in_set_conv_nth length_list_update nth_list_update_neq)

lemma idle_all_update:
  assumes "idle_all ps ks" "k \<notin> set ks"
  shows "idle_all (ps[k := x]) ks"
proof -
  have "\<forall>j\<in>set ks. ps[k := x] ! j = ps ! j"
    using assms(2) by (metis nth_list_update_neq)
  with assms(1) show ?thesis by (simp add: idle_all_def)
qed

lemma waiting_cong: "gen m' = gen m \<Longrightarrow> yields m' = yields m \<Longrightarrow> waiting m' = waiting m"
  by (simp add: waiting_def split: gen_pc.splits)

lemma idle_all_not_mem: "idle_all ps ks \<Longrightarrow> ps ! k \<noteq> Idle \<Longrightarrow> k \<notin> set ks"
  by (auto simp: idle_all_def)

lemma idle_all_snoc:
  "idle_all ps ks \<Longrightarrow> k < length ps \<Longrightarrow> k \<notin> set ks \<Longrightarrow> idle_all (ps[k := Idle]) (ks @ [k])"
  by (auto simp: idle_all_def nth_list_update)

lemma idle_all_tl: "idle_all ps (k # ks) \<Longrightarrow> idle_all (ps[k := x]) ks"
  by (auto simp: idle_all_def nth_list_update)

lemma idle_all_Nil [simp]: "idle_all ps []"
  by (simp add: idle_all_def)

lemma idle_all_append_pulls: "idle_all ps ks \<Longrightarrow> idle_all (ps @ qs) ks"
  by (auto simp: idle_all_def nth_append)

lemma loop_head_inv:
  assumes "core m" "idle_all (pulls m) (map fst (yields m))"
  shows "mux_inv (loop_head m)"
  using assms by (simp add: loop_head_def mux_inv_def core_def waiting_def)

lemma after_drain_inv:
  assumes "core m"
  shows "mux_inv (after_drain m)"
proof (cases "throws m")
  case Nil
  have "core (m\<lparr>yields := [], signal := deferred\<rparr>)" using assms by (simp add: core_def)
  then have "mux_inv (loop_head (m\<lparr>yields := [], signal := deferred\<rparr>))"
    by (rule loop_head_inv) simp
  with Nil show ?thesis by (simp add: after_drain_def)
next
  case (Cons e es)
  with assms show ?thesis by (simp add: after_drain_def mux_inv_def core_def waiting_def)
qed

lemma drain_inv:
  assumes "core m" "idle_all (pulls m) (map fst (drop i (yields m)))"
  shows "mux_inv (drain i m)"
proof (cases "i < length (yields m)")
  case False
  with assms show ?thesis by (simp add: drain_def after_drain_inv)
next
  case True
  then have "drop i (yields m) = yields m ! i # drop (Suc i) (yields m)"
    by (simp add: Cons_nth_drop_Suc)
  with assms(2) have "idle_all (pulls m) (fst (yields m ! i) # map fst (drop (Suc i) (yields m)))"
    by simp
  with assms(1) True show ?thesis
    by (simp add: drain_def mux_inv_def core_def waiting_def)
qed

lemma add_inv:
  assumes "mux_inv m"
  shows "mux_inv (add it m)"
proof -
  from assms have c: "core m" and w: "idle_all (pulls m) (waiting m)"
    and e: "gen m = GenAwaitSignal \<Longrightarrow> iteratorCount m \<le> 0 \<Longrightarrow> promise (signal m) \<noteq> None"
    and f: "\<And>i k. gen m = GenYield i k \<Longrightarrow> i < length (yields m)"
    by (simp_all add: mux_inv_def)
  from c have l: "length (pulls m) = length (iterators m)" by (simp add: core_def)
  have p: "(pulls m @ [Idle])[length (iterators m) := Pulling] = pulls m @ [Pulling]"
    unfolding l [symmetric] by simp
  have a: "add it m = m\<lparr>iteratorCount := iteratorCount m + 1, iterators := iterators m @ [it],
      pulls := pulls m @ [Pulling]\<rparr>"
    by (simp add: add_def callIteratorNext_def p)
  have c': "core (add it m)"
    using c unfolding a core_def by (auto simp: active_Cons)
  have w': "idle_all (pulls (add it m)) (waiting (add it m))"
  proof -
    have "waiting (add it m) = waiting m" unfolding a by (rule waiting_cong) simp_all
    with w show ?thesis unfolding a by (simp add: idle_all_append_pulls)
  qed
  show ?thesis
    unfolding mux_inv_def using c' w' e f by (simp add: a)
qed


lemma waiting_snoc:
  assumes "gen m' = gen m" "yields m' = yields m @ [y]"
    and "\<forall>i k. gen m = GenYield i k \<longrightarrow> i < length (yields m)"
  shows "waiting m' = (if alive (gen m) then waiting m @ [fst y] else [])"
  using assms by (auto simp: waiting_def split: gen_pc.splits)

lemma mux_invI:
  "core m \<Longrightarrow> idle_all (pulls m) (waiting m) \<Longrightarrow>
   (gen m = GenAwaitSignal \<Longrightarrow> iteratorCount m \<le> 0 \<Longrightarrow> promise (signal m) \<noteq> None) \<Longrightarrow>
   (\<And>i k. gen m = GenYield i k \<Longrightarrow> i < length (yields m)) \<Longrightarrow> mux_inv m"
  by (simp add: mux_inv_def)

lemma pull_settles_inv:
  assumes "mux_inv m"
  shows "mux_inv (pull_settles k m)"
proof (cases "k < length (pulls m) \<and> k < length (iterators m) \<and> pulls m ! k = Pulling")
  case False
  then have "pull_settles k m = m" by (auto simp: pull_settles_def)
  with assms show ?thesis by simp
next
  case True
  from assms have c: "core m" and w: "idle_all (pulls m) (waiting m)"
    and f: "\<forall>i k. gen m = GenYield i k \<longrightarrow> i < length (yields m)"
    by (simp_all add: mux_inv_def)
  from c have l: "length (pulls m) = length (iterators m)"
    and n: "iteratorCount m = active (pulls m)"
    and d: "throws m \<noteq> [] \<Longrightarrow> Failed \<in> set (pulls m)"
    by (simp_all add: core_def)
  from True have kl: "k < length (pulls m)" and kp: "pulls m ! k = Pulling" by simp_all
  from w kp have kn: "k \<notin> set (waiting m)" by (simp add: idle_all_not_mem)
  obtain vs en where it: "iterators m ! k = (vs, en)" by (cases "iterators m ! k")
  show ?thesis
  proof (cases vs)
    case (Cons v vs')
    let ?m1 = "m\<lparr>yields := yields m @ [(k, v)], iterators := (iterators m)[k := (vs', en)],
                  pulls := (pulls m)[k := Idle]\<rparr>"
    let ?m2 = "?m1\<lparr>signal := signal_resolve (signal ?m1)\<rparr>"
    have r: "pull_settles k m = ?m2"
      using True it Cons by (simp add: pull_settles_def Let_def)
    have c2: "core ?m2"
      using l n d kl kp by (auto simp: core_def active_update Failed_update)
    have "waiting ?m2 = (if alive (gen m) then waiting m @ [fst (k, v)] else [])"
      by (rule waiting_snoc [OF _ _ f]) simp_all
    then have w2: "idle_all (pulls ?m2) (waiting ?m2)"
      using w kl kn by (simp add: idle_all_snoc)
    show ?thesis
      unfolding r by (rule mux_invI [OF c2 w2]) (use f in \<open>auto simp: less_Suc_eq\<close>)
  next
    case Nil
    show ?thesis
    proof (cases en)
      case None
      let ?m1 = "m\<lparr>iteratorCount := iteratorCount m - 1,
                    pulls := (pulls m)[k := Exhausted]\<rparr>"
      let ?m2 = "?m1\<lparr>signal := signal_resolve (signal ?m1)\<rparr>"
      have r: "pull_settles k m = ?m2"
        using True it Nil None by (simp add: pull_settles_def Let_def)
      have c2: "core ?m2"
        using l n d kl kp by (auto simp: core_def active_update Failed_update)
      have "waiting ?m2 = waiting m" by (rule waiting_cong) simp_all
      then have w2: "idle_all (pulls ?m2) (waiting ?m2)"
        using w kn by (simp add: idle_all_update)
      show ?thesis
        unfolding r by (rule mux_invI [OF c2 w2]) (use f in auto)
    next
      case (Some e)
      let ?m1 = "m\<lparr>throws := throws m @ [e], pulls := (pulls m)[k := Failed]\<rparr>"
      let ?m2 = "?m1\<lparr>signal := signal_resolve (signal ?m1)\<rparr>"
      have r: "pull_settles k m = ?m2"
        using True it Nil Some by (simp add: pull_settles_def Let_def)
      have c2: "core ?m2"
        using l n kl kp by (auto simp: core_def active_update set_update_memI)
      have "waiting ?m2 = waiting m" by (rule waiting_cong) simp_all
      then have w2: "idle_all (pulls ?m2) (waiting ?m2)"
        using w kn by (simp add: idle_all_update)
      show ?thesis
        unfolding r by (rule mux_invI [OF c2 w2]) (use f in auto)
    qed
  qed
qed

lemma consumer_next_inv:
  assumes "mux_inv m"
  shows "mux_inv (consumer_next m)"
proof (cases "gen m")
  case GenStart
  with assms have "core m" "idle_all (pulls m) (map fst (yields m))"
    by (simp_all add: mux_inv_def waiting_def)
  then have "mux_inv (loop_head m)" by (rule loop_head_inv)
  with GenStart show ?thesis by (simp add: consumer_next_def)
next
  case GenAwaitSignal
  with assms show ?thesis by (simp add: consumer_next_def)
next
  case (GenYield i k)
  from assms have c: "core m" and w: "idle_all (pulls m) (waiting m)"
    by (simp_all add: mux_inv_def)
  from w GenYield have w1: "idle_all (pulls m) (k # map fst (drop (Suc i) (yields m)))"
    by (simp add: waiting_def)
  then have kl: "k < length (pulls m)" and ki: "pulls m ! k = Idle"
    by (simp_all add: idle_all_def)
  let ?m1 = "callIteratorNext k m"
  have c1: "core ?m1"
    using c kl ki by (auto simp: core_def callIteratorNext_def active_update Failed_update)
  have w2: "idle_all (pulls ?m1) (map fst (drop (Suc i) (yields ?m1)))"
    using idle_all_tl [OF w1] by (simp add: callIteratorNext_def)
  have "mux_inv (drain (Suc i) ?m1)" by (rule drain_inv [OF c1 w2])
  with GenYield show ?thesis by (simp add: consumer_next_def)
next
  case GenReturned
  with assms show ?thesis by (simp add: consumer_next_def)
next
  case (GenThrew e)
  with assms show ?thesis by (simp add: consumer_next_def)
qed

lemma signal_wakes_inv:
  assumes "mux_inv m"
  shows "mux_inv (signal_wakes m)"
proof (cases "gen m = GenAwaitSignal \<and> promise (signal m) \<noteq> None")
  case False
  then have "signal_wakes m = m" by (auto simp: signal_wakes_def)
  with assms show ?thesis by simp
next
  case True
  from assms True have "core m" "idle_all (pulls m) (map fst (drop 0 (yields m)))"
    by (simp_all add: mux_inv_def waiting_def)
  then have "mux_inv (drain 0 m)" by (rule drain_inv)
  with True show ?thesis by (simp add: signal_wakes_def)
qed

lemma mux_step_inv: "mux_inv m \<Longrightarrow> mux_inv (mux_step ev m)"
  by (cases ev) (simp_all add: add_inv pull_settles_inv consumer_next_inv signal_wakes_inv)

lemma mux_run_inv: "mux_inv m \<Longrightarrow> mux_inv (mux_run evs m)"
  by (induction evs arbitrary: m) (simp_all add: mux_step_inv)

lemma MuxAsyncIterator_inv: "mux_inv MuxAsyncIterator"
  by (simp add: mux_inv_def core_def MuxAsyncIterator_def waiting_def)


lemma after_drain_Returned:
  "gen (after_drain m) = GenReturned \<Longrightarrow>
   throws (after_drain m) = [] \<and> yields (after_drain m) = [] \<and> iteratorCount (after_drain m) \<le> 0"
  by (cases "throws m") (auto simp: after_drain_def loop_head_def split: if_splits)

lemma drain_Returned:
  "gen (drain i m) = GenReturned \<Longrightarrow>
   throws (drain i m) = [] \<and> yields (drain i m) = [] \<and> iteratorCount (drain i m) \<le> 0"
  using after_drain_Returned [of m] by (auto simp: drain_def split: if_splits)

lemma zero_all_exhausted:
  assumes "core m" "iteratorCount m = 0"
  shows "throws m = []" and "idle_all (pulls m) ks \<Longrightarrow> ks = []"
proof -
  from assms have a: "active (pulls m) = 0" by (simp add: core_def)
  show "throws m = []"
  proof (rule ccontr)
    assume "throws m \<noteq> []"
    with assms(1) have "Failed \<in> set (pulls m)" by (simp add: core_def)
    then have "0 < active (pulls m)" by (rule active_Failed)
    with a show False by simp
  qed
  show "ks = []" if i: "idle_all (pulls m) ks"
  proof (cases ks)
    case Nil
    then show ?thesis .
  next
    case (Cons k ks')
    with i have "k < length (pulls m)" "pulls m ! k = Idle" by (simp_all add: idle_all_def)
    then have "0 < active (pulls m)" by (simp add: active_pos)
    with a show ?thesis by simp
  qed
qed

lemma active_nonneg: "0 \<le> active ps"
  by (simp add: active_def)

lemma returns_at_zero:
  assumes i: "mux_inv m" and g: "gen m \<noteq> GenReturned" "gen (mux_step ev m) = GenReturned"
  shows "iteratorCount (mux_step ev m) = 0 \<and> yields (mux_step ev m) = []
    \<and> throws (mux_step ev m) = []"
proof -
  have "mux_inv (mux_step ev m)" by (rule mux_step_inv [OF i])
  then have "iteratorCount (mux_step ev m) = active (pulls (mux_step ev m))"
    by (simp add: mux_inv_def core_def)
  then have nn: "0 \<le> iteratorCount (mux_step ev m)" by (simp add: active_nonneg)
  have "throws (mux_step ev m) = [] \<and> yields (mux_step ev m) = []
      \<and> iteratorCount (mux_step ev m) \<le> 0"
  proof (cases ev)
    case (Add it)
    with g show ?thesis by (simp add: add_def callIteratorNext_def)
  next
    case (PullSettles k)
    with g show ?thesis
      by (auto simp: pull_settles_def Let_def split: if_splits prod.splits list.splits
          option.splits)
  next
    case SignalWakes
    with g drain_Returned [of 0 m] show ?thesis
      by (auto simp: signal_wakes_def split: if_splits)
  next
    case ConsumerNext
    show ?thesis
    proof (cases "gen m")
      case GenStart
      with g ConsumerNext have z: "iteratorCount m \<le> 0"
        and e: "mux_step ev m = m\<lparr>gen := GenReturned\<rparr>"
        by (auto simp: consumer_next_def loop_head_def split: if_splits)
      from i have c: "core m" and w: "idle_all (pulls m) (waiting m)"
        by (simp_all add: mux_inv_def)
      from c have "0 \<le> iteratorCount m" by (simp add: core_def active_nonneg)
      with z have z0: "iteratorCount m = 0" by simp
      from w GenStart have "idle_all (pulls m) (map fst (yields m))"
        by (simp add: waiting_def)
      then have "map fst (yields m) = []" by (rule zero_all_exhausted(2) [OF c z0])
      moreover have "throws m = []" by (rule zero_all_exhausted(1) [OF c z0])
      ultimately show ?thesis unfolding e using z0 by simp
    next
      case (GenYield j k)
      with g ConsumerNext drain_Returned [of "Suc j" "callIteratorNext k m"] show ?thesis
        by (simp add: consumer_next_def)
    next
      case GenAwaitSignal
      with g ConsumerNext show ?thesis by (simp add: consumer_next_def)
    next
      case GenReturned
      with g show ?thesis by simp
    next
      case (GenThrew e)
      with g ConsumerNext show ?thesis by (simp add: consumer_next_def)
    qed
  qed
  with nn show ?thesis by simp
qed

lemma zero_returns:
  assumes i: "mux_inv m" and z: "iteratorCount m = 0" and a: "alive (gen m)"
  shows "yields m = [] \<and> throws m = []
    \<and> (gen m = GenStart \<and> gen (mux_step ConsumerNext m) = GenReturned
       \<or> gen m = GenAwaitSignal \<and> gen (mux_step SignalWakes m) = GenReturned)"
proof -
  from i have c: "core m" and w: "idle_all (pulls m) (waiting m)"
    and e: "gen m = GenAwaitSignal \<Longrightarrow> iteratorCount m \<le> 0 \<Longrightarrow> promise (signal m) \<noteq> None"
    by (simp_all add: mux_inv_def)
  have t: "throws m = []" by (rule zero_all_exhausted(1) [OF c z])
  have w0: "waiting m = []" using w by (rule zero_all_exhausted(2) [OF c z])
  show ?thesis
  proof (cases "gen m")
    case GenStart
    with w0 have "yields m = []" by (simp add: waiting_def)
    with t z GenStart show ?thesis by (simp add: consumer_next_def loop_head_def)
  next
    case GenAwaitSignal
    with w0 have y: "yields m = []" by (simp add: waiting_def)
    from e GenAwaitSignal z have "promise (signal m) \<noteq> None" by simp
    with t z y GenAwaitSignal show ?thesis
      by (simp add: signal_wakes_def drain_def after_drain_def loop_head_def)
  next
    case (GenYield j k)
    with w0 show ?thesis by (simp add: waiting_def)
  next
    case GenReturned
    with a show ?thesis by simp
  next
    case (GenThrew e)
    with a show ?thesis by simp
  qed
qed

text \<open>
  C7: in every state the multiplexer can reach, (1) an event that makes the generator
  return (the combined sequence ends without error) leaves the active-source count at
  zero, no queued value and no accumulated failure; (2) conversely, whenever the count
  is zero while the generator is still running, nothing is queued and no failure has
  accumulated, the generator is at its start or at \<^verbatim>\<open>await this.signal\<close> with the
  signal resolved, and its next step returns; (3) with zero registered sources the first
  request returns at once, with nothing delivered.
\<close>

theorem mux_ends_exactly_at_zero:
  assumes "m = mux_run evs (MuxAsyncIterator :: ('v, 'e) mux)"
  shows "(gen m \<noteq> GenReturned \<and> gen (mux_step ev m) = GenReturned \<longrightarrow>
            iteratorCount (mux_step ev m) = 0 \<and> yields (mux_step ev m) = []
            \<and> throws (mux_step ev m) = [])
    \<and> (iteratorCount m = 0 \<and> alive (gen m) \<longrightarrow>
          yields m = [] \<and> throws m = []
          \<and> (gen m = GenStart \<and> gen (mux_step ConsumerNext m) = GenReturned
             \<or> gen m = GenAwaitSignal \<and> gen (mux_step SignalWakes m) = GenReturned))
    \<and> gen (mux_step ConsumerNext (MuxAsyncIterator :: ('v, 'e) mux)) = GenReturned
    \<and> delivered (mux_step ConsumerNext (MuxAsyncIterator :: ('v, 'e) mux)) = []"
proof -
  have i: "mux_inv m" unfolding assms by (rule mux_run_inv) (rule MuxAsyncIterator_inv)
  have z: "gen (mux_step ConsumerNext (MuxAsyncIterator :: ('v, 'e) mux)) = GenReturned
      \<and> delivered (mux_step ConsumerNext (MuxAsyncIterator :: ('v, 'e) mux)) = []"
    by (simp add: MuxAsyncIterator_def consumer_next_def loop_head_def)
  from returns_at_zero [OF i] zero_returns [OF i] z show ?thesis by blast
qed

theorem mux_ends_exactly_at_zero_witness:
  "gen (mux_run [Add ([1::nat], None :: string option), ConsumerNext, PullSettles 0,
        SignalWakes, ConsumerNext, PullSettles 0] MuxAsyncIterator) = GenAwaitSignal
   \<and> iteratorCount (mux_run [Add ([1::nat], None :: string option), ConsumerNext,
        PullSettles 0, SignalWakes, ConsumerNext, PullSettles 0] MuxAsyncIterator) = 0
   \<and> gen (mux_step SignalWakes
        (mux_run [Add ([1::nat], None :: string option), ConsumerNext, PullSettles 0,
          SignalWakes, ConsumerNext, PullSettles 0] MuxAsyncIterator)) = GenReturned
   \<and> yields (mux_step SignalWakes
        (mux_run [Add ([1::nat], None :: string option), ConsumerNext, PullSettles 0,
          SignalWakes, ConsumerNext, PullSettles 0] MuxAsyncIterator)) = []
   \<and> throws (mux_step SignalWakes
        (mux_run [Add ([1::nat], None :: string option), ConsumerNext, PullSettles 0,
          SignalWakes, ConsumerNext, PullSettles 0] MuxAsyncIterator)) = []
   \<and> delivered (mux_step SignalWakes
        (mux_run [Add ([1::nat], None :: string option), ConsumerNext, PullSettles 0,
          SignalWakes, ConsumerNext, PullSettles 0] MuxAsyncIterator)) = [1]"
  using mux_ends_exactly_at_zero [of
      "mux_run [Add ([1::nat], None :: string option), ConsumerNext, PullSettles 0,
          SignalWakes, ConsumerNext, PullSettles 0] MuxAsyncIterator"
      "[Add ([1::nat], None :: string option), ConsumerNext, PullSettles 0,
          SignalWakes, ConsumerNext, PullSettles 0]" SignalWakes]
  by (simp add: MuxAsyncIterator_def add_def callIteratorNext_def pull_settles_def Let_def
      consumer_next_def loop_head_def signal_wakes_def drain_def after_drain_def
      signal_resolve_def resolve_resume_def resolve_call_def settle_def drop_nth_def
      deferred_def)


lemma drain_cycle:
  assumes "throws m = e # es" "n = length (yields m) - i" "i \<le> length (yields m)"
  shows "gen (mux_run (replicate n ConsumerNext) (drain i m)) = GenThrew e
    \<and> delivered (mux_run (replicate n ConsumerNext) (drain i m))
        = delivered m @ map snd (drop i (yields m))"
  using assms
proof (induction n arbitrary: i m)
  case 0
  then have "drain i m = m\<lparr>gen := GenThrew e\<rparr>"
    by (simp add: drain_def after_drain_def)
  with 0 show ?case by simp
next
  case (Suc n)
  then have il: "i < length (yields m)" by simp
  let ?k = "fst (yields m ! i)"
  let ?m1 = "m\<lparr>delivered := delivered m @ [snd (yields m ! i)], gen := GenYield i ?k\<rparr>"
  let ?m2 = "callIteratorNext ?k ?m1"
  have d: "drain i m = ?m1" using il by (simp add: drain_def)
  have s: "mux_step ConsumerNext ?m1 = drain (Suc i) ?m2"
    by (simp add: consumer_next_def)
  have y: "yields ?m2 = yields m" and t: "throws ?m2 = e # es"
    and dl: "delivered ?m2 = delivered m @ [snd (yields m ! i)]"
    using Suc.prems(1) by (simp_all add: callIteratorNext_def)
  have n: "n = length (yields ?m2) - Suc i" using Suc.prems(2) y by simp
  have l: "Suc i \<le> length (yields ?m2)" using il y by simp
  note ih = Suc.IH [OF t n l]
  have dr: "drop i (yields m) = yields m ! i # drop (Suc i) (yields m)"
    using il by (simp add: Cons_nth_drop_Suc)
  show ?case
    unfolding d replicate_Suc mux_run.simps s using ih
    by (simp add: y dl dr)
qed

lemma dead_step:
  assumes "gen m = GenThrew e" "length (pulls m) = length (iterators m)"
    "k < length (pulls m)" "pulls m ! k \<noteq> Pulling"
  shows "gen (mux_step ev m) = GenThrew e
    \<and> length (pulls (mux_step ev m)) = length (iterators (mux_step ev m))
    \<and> k < length (pulls (mux_step ev m)) \<and> pulls (mux_step ev m) ! k \<noteq> Pulling"
proof (cases ev)
  case (Add it)
  have "(pulls m @ [Idle])[length (iterators m) := Pulling] = pulls m @ [Pulling]"
    unfolding assms(2) [symmetric] by simp
  with Add assms show ?thesis
    by (simp add: add_def callIteratorNext_def nth_append)
next
  case (PullSettles j)
  with assms show ?thesis
    by (auto simp: pull_settles_def Let_def nth_list_update
        split: prod.splits list.splits option.splits)
next
  case ConsumerNext
  with assms show ?thesis by (simp add: consumer_next_def)
next
  case SignalWakes
  with assms show ?thesis by (simp add: signal_wakes_def)
qed

lemma dead_step_gen:
  assumes "gen m = GenThrew e"
  shows "gen (mux_step ev m) = GenThrew e \<and> delivered (mux_step ev m) = delivered m"
proof (cases ev)
  case (Add it)
  with assms show ?thesis by (simp add: add_def callIteratorNext_def)
next
  case (PullSettles j)
  with assms show ?thesis
    by (auto simp: pull_settles_def Let_def split: prod.splits list.splits option.splits)
next
  case ConsumerNext
  with assms show ?thesis by (simp add: consumer_next_def)
next
  case SignalWakes
  with assms show ?thesis by (simp add: signal_wakes_def)
qed

lemma dead_run_gen:
  "gen m = GenThrew e \<Longrightarrow>
   gen (mux_run evs m) = GenThrew e \<and> delivered (mux_run evs m) = delivered m"
proof (induction evs arbitrary: m)
  case Nil
  then show ?case by simp
next
  case (Cons ev evs)
  from dead_step_gen [OF Cons.prems, of ev] Cons.IH [of "mux_step ev m"]
  show ?case by simp
qed

lemma dead_run_pulls:
  "gen m = GenThrew e \<Longrightarrow> length (pulls m) = length (iterators m) \<Longrightarrow>
   k < length (pulls m) \<Longrightarrow> pulls m ! k \<noteq> Pulling \<Longrightarrow>
   k < length (pulls (mux_run evs m)) \<and> pulls (mux_run evs m) ! k \<noteq> Pulling"
proof (induction evs arbitrary: m)
  case Nil
  then show ?case by simp
next
  case (Cons ev evs)
  from dead_step [OF Cons.prems, of ev] Cons.IH [of "mux_step ev m"]
  show ?case by simp
qed

lemma cycle_invI:
  "(throws m \<noteq> [] \<Longrightarrow> promise (signal m) \<noteq> None) \<Longrightarrow>
   (\<And>i k. gen m = GenYield i k \<Longrightarrow>
      i < length (yields m)
      \<and> (\<exists>before. delivered m = before @ map snd (take (Suc i) (yields m)))) \<Longrightarrow>
   cycle_inv m"
  by (simp add: cycle_inv_def)

lemma cycle_inv_loop_head: "throws m = [] \<Longrightarrow> cycle_inv (loop_head m)"
  by (simp add: cycle_inv_def loop_head_def)

lemma cycle_inv_after_drain:
  "throws m \<noteq> [] \<longrightarrow> promise (signal m) \<noteq> None \<Longrightarrow> cycle_inv (after_drain m)"
  by (cases "throws m")
    (simp_all add: after_drain_def cycle_inv_loop_head, simp add: cycle_inv_def)

lemma cycle_inv_drain:
  assumes s: "throws m \<noteq> [] \<longrightarrow> promise (signal m) \<noteq> None"
    and d: "\<exists>before. delivered m = before @ map snd (take i (yields m))"
  shows "cycle_inv (drain i m)"
proof (cases "i < length (yields m)")
  case False
  with s show ?thesis by (simp add: drain_def cycle_inv_after_drain)
next
  case True
  from d obtain before where b: "delivered m = before @ map snd (take i (yields m))" ..
  have "delivered m @ [snd (yields m ! i)] = before @ map snd (take (Suc i) (yields m))"
    using True b by (simp add: take_Suc_conv_app_nth)
  with True s show ?thesis
    by (auto simp: drain_def cycle_inv_def)
qed

lemma cycle_inv_add: "cycle_inv m \<Longrightarrow> cycle_inv (add it m)"
  by (simp add: cycle_inv_def add_def callIteratorNext_def)

lemma cycle_inv_pull_settles:
  assumes "cycle_inv m"
  shows "cycle_inv (pull_settles k m)"
proof (cases "k < length (pulls m) \<and> k < length (iterators m) \<and> pulls m ! k = Pulling")
  case False
  then have "pull_settles k m = m" by (auto simp: pull_settles_def)
  with assms show ?thesis by simp
next
  case True
  from assms have y: "\<And>i j. gen m = GenYield i j \<Longrightarrow>
      i < length (yields m)
      \<and> (\<exists>before. delivered m = before @ map snd (take (Suc i) (yields m)))"
    by (simp add: cycle_inv_def)
  obtain vs en where it: "iterators m ! k = (vs, en)" by (cases "iterators m ! k")
  show ?thesis
  proof (rule cycle_invI)
    show "promise (signal (pull_settles k m)) \<noteq> None"
      using True it
      by (simp add: pull_settles_def Let_def split: list.splits option.splits)
  next
    fix i j
    assume g: "gen (pull_settles k m) = GenYield i j"
    have g0: "gen (pull_settles k m) = gen m"
      and d0: "delivered (pull_settles k m) = delivered m"
      and y0: "yields (pull_settles k m) = yields m
        \<or> (\<exists>y. yields (pull_settles k m) = yields m @ [y])"
      using True it
      by (simp_all add: pull_settles_def Let_def split: list.splits option.splits)
    from g g0 y [of i j] have il: "i < length (yields m)"
      and b: "\<exists>before. delivered m = before @ map snd (take (Suc i) (yields m))"
      by simp_all
    from y0 il have "i < length (yields (pull_settles k m))"
      and "take (Suc i) (yields (pull_settles k m)) = take (Suc i) (yields m)"
      by auto
    with b d0 show "i < length (yields (pull_settles k m))
      \<and> (\<exists>before. delivered (pull_settles k m)
            = before @ map snd (take (Suc i) (yields (pull_settles k m))))"
      by simp
  qed
qed

lemma cycle_inv_consumer_next:
  assumes "cycle_inv m"
  shows "cycle_inv (consumer_next m)"
proof (cases "gen m")
  case GenStart
  from assms have s: "throws m \<noteq> [] \<longrightarrow> promise (signal m) \<noteq> None"
    by (simp add: cycle_inv_def)
  with GenStart show ?thesis
    by (simp add: consumer_next_def cycle_inv_def loop_head_def)
next
  case GenAwaitSignal
  with assms show ?thesis by (simp add: consumer_next_def)
next
  case (GenYield i k)
  from assms GenYield have s: "throws m \<noteq> [] \<longrightarrow> promise (signal m) \<noteq> None"
    and b: "\<exists>before. delivered m = before @ map snd (take (Suc i) (yields m))"
    by (simp_all add: cycle_inv_def)
  have "cycle_inv (drain (Suc i) (callIteratorNext k m))"
    by (rule cycle_inv_drain) (use s b in \<open>simp_all add: callIteratorNext_def\<close>)
  with GenYield show ?thesis by (simp add: consumer_next_def)
next
  case GenReturned
  with assms show ?thesis by (simp add: consumer_next_def)
next
  case (GenThrew e)
  with assms show ?thesis by (simp add: consumer_next_def)
qed

lemma cycle_inv_signal_wakes:
  assumes "cycle_inv m"
  shows "cycle_inv (signal_wakes m)"
proof (cases "gen m = GenAwaitSignal \<and> promise (signal m) \<noteq> None")
  case False
  then have "signal_wakes m = m" by (auto simp: signal_wakes_def)
  with assms show ?thesis by simp
next
  case True
  have "cycle_inv (drain 0 m)"
    by (rule cycle_inv_drain) (use assms in \<open>simp_all add: cycle_inv_def\<close>)
  with True show ?thesis by (simp add: signal_wakes_def)
qed

lemma cycle_inv_step: "cycle_inv m \<Longrightarrow> cycle_inv (mux_step ev m)"
  by (cases ev)
    (simp_all add: cycle_inv_add cycle_inv_pull_settles cycle_inv_consumer_next
      cycle_inv_signal_wakes)

lemma cycle_inv_run: "cycle_inv m \<Longrightarrow> cycle_inv (mux_run evs m)"
  by (induction evs arbitrary: m) (simp_all add: cycle_inv_step)

lemma cycle_inv_MuxAsyncIterator: "cycle_inv MuxAsyncIterator"
  by (simp add: cycle_inv_def MuxAsyncIterator_def)


lemma raising_drain:
  assumes "\<exists>more. throws m = e # es @ more"
  shows "raising e es (drain i m)"
proof (cases "i < length (yields m)")
  case True
  with assms show ?thesis by (simp add: drain_def raising_def)
next
  case False
  from assms obtain more where "throws m = e # es @ more" ..
  with False show ?thesis by (simp add: drain_def after_drain_def raising_def)
qed

lemma failure_keeps_count:
  assumes "mux_inv m" "throws m \<noteq> []"
  shows "0 < iteratorCount m"
proof -
  from assms have "Failed \<in> set (pulls m)" and "iteratorCount m = active (pulls m)"
    by (simp_all add: mux_inv_def core_def)
  then show ?thesis by (simp add: active_Failed)
qed

lemma raising_step:
  assumes i: "mux_inv m" and r: "raising e es m"
  shows "raising e es (mux_step ev m)"
proof -
  from r obtain more where t: "throws m = e # es @ more"
    and g: "alive (gen m) \<or> gen m = GenThrew e"
    by (auto simp: raising_def)
  show ?thesis
  proof (cases ev)
    case (Add it)
    with t g show ?thesis by (simp add: raising_def add_def callIteratorNext_def)
  next
    case (PullSettles k)
    have "gen (pull_settles k m) = gen m"
      by (simp add: pull_settles_def Let_def split: prod.splits list.splits option.splits)
    moreover have "throws (pull_settles k m) = throws m
        \<or> (\<exists>x. throws (pull_settles k m) = throws m @ [x])"
      by (simp add: pull_settles_def Let_def split: prod.splits list.splits option.splits)
    ultimately show ?thesis using PullSettles t g by (auto simp: raising_def)
  next
    case SignalWakes
    show ?thesis
    proof (cases "gen m = GenAwaitSignal \<and> promise (signal m) \<noteq> None")
      case True
      have "raising e es (drain 0 m)" by (rule raising_drain) (use t in blast)
      with True SignalWakes show ?thesis by (simp add: signal_wakes_def)
    next
      case False
      then have "signal_wakes m = m" by (auto simp: signal_wakes_def)
      with SignalWakes r show ?thesis by simp
    qed
  next
    case ConsumerNext
    show ?thesis
    proof (cases "gen m")
      case GenStart
      from failure_keeps_count [OF i] t have "0 < iteratorCount m" by simp
      with GenStart ConsumerNext t show ?thesis
        by (simp add: consumer_next_def loop_head_def raising_def)
    next
      case (GenYield j k)
      have "raising e es (drain (Suc j) (callIteratorNext k m))"
        by (rule raising_drain) (use t in \<open>simp add: callIteratorNext_def\<close>)
      with GenYield ConsumerNext show ?thesis by (simp add: consumer_next_def)
    next
      case GenAwaitSignal
      with ConsumerNext r show ?thesis by (simp add: consumer_next_def)
    next
      case GenReturned
      with g show ?thesis by simp
    next
      case (GenThrew x)
      with ConsumerNext r show ?thesis by (simp add: consumer_next_def)
    qed
  qed
qed

lemma raising_run: "mux_inv m \<Longrightarrow> raising e es m \<Longrightarrow> raising e es (mux_run evs m)"
proof (induction evs arbitrary: m)
  case Nil
  then show ?case by simp
next
  case (Cons ev evs)
  from Cons.IH [OF mux_step_inv [OF Cons.prems(1)] raising_step [OF Cons.prems]]
  show ?case by simp
qed

lemma throw_step:
  assumes c: "cycle_inv m" and g: "gen m \<noteq> GenThrew e" "gen (mux_step ev m) = GenThrew e"
  shows "(\<exists>rest. throws (mux_step ev m) = e # rest)
    \<and> delivered (mux_step ev m) = delivered m
    \<and> (\<exists>before. delivered (mux_step ev m) = before @ map snd (yields (mux_step ev m)))"
proof -
  have d: "(\<exists>rest. throws (drain i n) = e # rest) \<and> delivered (drain i n) = delivered n
      \<and> yields (drain i n) = yields n \<and> length (yields n) \<le> i"
    if "gen (drain i n) = GenThrew e" for i and n :: "('a, 'b) mux"
    using that
    by (cases "throws n")
      (auto simp: drain_def after_drain_def loop_head_def split: if_splits)
  show ?thesis
  proof (cases ev)
    case (Add it)
    with g show ?thesis by (simp add: add_def callIteratorNext_def)
  next
    case (PullSettles k)
    have "gen (pull_settles k m) = gen m"
      by (simp add: pull_settles_def Let_def split: prod.splits list.splits option.splits)
    with g PullSettles show ?thesis by simp
  next
    case SignalWakes
    with g have w: "signal_wakes m = drain 0 m" and gd: "gen (drain 0 m) = GenThrew e"
      by (auto simp: signal_wakes_def split: if_splits)
    from d [OF gd] SignalWakes w show ?thesis by simp
  next
    case ConsumerNext
    show ?thesis
    proof (cases "gen m")
      case GenStart
      with g ConsumerNext show ?thesis
        by (simp add: consumer_next_def loop_head_def split: if_splits)
    next
      case (GenYield j k)
      let ?n = "callIteratorNext k m"
      from GenYield ConsumerNext g have s: "mux_step ev m = drain (Suc j) ?n"
        and gd: "gen (drain (Suc j) ?n) = GenThrew e"
        by (simp_all add: consumer_next_def)
      from c GenYield obtain before where
        b: "delivered m = before @ map snd (take (Suc j) (yields m))"
        by (auto simp: cycle_inv_def)
      from d [OF gd] have "length (yields m) \<le> Suc j"
        and "delivered (drain (Suc j) ?n) = delivered m"
        and "yields (drain (Suc j) ?n) = yields m"
        and "\<exists>rest. throws (drain (Suc j) ?n) = e # rest"
        by (simp_all add: callIteratorNext_def)
      with b show ?thesis unfolding s by auto
    next
      case GenAwaitSignal
      with g ConsumerNext show ?thesis by (simp add: consumer_next_def)
    next
      case GenReturned
      with g ConsumerNext show ?thesis by (simp add: consumer_next_def)
    next
      case (GenThrew x)
      with g ConsumerNext show ?thesis by (simp add: consumer_next_def)
    qed
  qed
qed

lemma cycle_steps:
  assumes i: "mux_inv m" and c: "cycle_inv m" and t: "throws m = e # es"
  shows "(gen m = GenStart \<longrightarrow> gen (mux_step ConsumerNext m) = GenAwaitSignal)
    \<and> (gen m = GenAwaitSignal \<longrightarrow>
          mux_step SignalWakes m =
            (if yields m = [] then m\<lparr>gen := GenThrew e\<rparr>
             else m\<lparr>delivered := delivered m @ [snd (yields m ! 0)],
                    gen := GenYield 0 (fst (yields m ! 0))\<rparr>))
    \<and> (\<forall>j k. gen m = GenYield j k \<longrightarrow>
          mux_step ConsumerNext m =
            (if Suc j < length (yields m)
             then (callIteratorNext k m)
                    \<lparr>delivered := delivered m @ [snd (yields m ! Suc j)],
                     gen := GenYield (Suc j) (fst (yields m ! Suc j))\<rparr>
             else (callIteratorNext k m)\<lparr>gen := GenThrew e\<rparr>))"
proof -
  from failure_keeps_count [OF i] t have n: "0 < iteratorCount m" by simp
  from c t have s: "promise (signal m) \<noteq> None" by (simp add: cycle_inv_def)
  show ?thesis
    using n s t
    by (auto simp: consumer_next_def loop_head_def signal_wakes_def drain_def
        after_drain_def callIteratorNext_def)
qed

lemma whole_cycle:
  assumes c: "cycle_inv m" and t: "throws m = e # es"
  shows "(gen m = GenAwaitSignal \<longrightarrow>
      gen (mux_run (SignalWakes # replicate (length (yields m)) ConsumerNext) m) = GenThrew e
      \<and> delivered (mux_run (SignalWakes # replicate (length (yields m)) ConsumerNext) m)
          = delivered m @ map snd (yields m))
    \<and> (\<forall>j k. gen m = GenYield j k \<longrightarrow>
      gen (mux_run (replicate (length (yields m) - j) ConsumerNext) m) = GenThrew e
      \<and> delivered (mux_run (replicate (length (yields m) - j) ConsumerNext) m)
          = delivered m @ map snd (drop (Suc j) (yields m)))"
proof -
  from c t have s: "promise (signal m) \<noteq> None" by (simp add: cycle_inv_def)
  have a: "gen (mux_run (SignalWakes # replicate (length (yields m)) ConsumerNext) m) = GenThrew e
      \<and> delivered (mux_run (SignalWakes # replicate (length (yields m)) ConsumerNext) m)
          = delivered m @ map snd (yields m)"
    if "gen m = GenAwaitSignal"
    using that s t drain_cycle [of m e es "length (yields m)" 0]
    by (simp add: signal_wakes_def)
  have b: "gen (mux_run (replicate (length (yields m) - j) ConsumerNext) m) = GenThrew e
      \<and> delivered (mux_run (replicate (length (yields m) - j) ConsumerNext) m)
          = delivered m @ map snd (drop (Suc j) (yields m))"
    if g: "gen m = GenYield j k" for j k
  proof -
    from c g have jl: "j < length (yields m)" by (simp add: cycle_inv_def)
    let ?n = "callIteratorNext k m"
    have r: "replicate (length (yields m) - j) ConsumerNext
        = ConsumerNext # replicate (length (yields ?n) - Suc j) ConsumerNext"
      using jl by (simp add: callIteratorNext_def Suc_diff_Suc flip: replicate_Suc)
    have st: "mux_step ConsumerNext m = drain (Suc j) ?n"
      using g by (simp add: consumer_next_def)
    have "throws ?n = e # es" using t by (simp add: callIteratorNext_def)
    from drain_cycle [OF this, of "length (yields ?n) - Suc j" "Suc j"] jl
    show ?thesis
      unfolding r mux_run.simps st by (simp add: callIteratorNext_def)
  qed
  from a b show ?thesis by blast
qed

text \<open>
  C4, amended: in every drain cycle in which failures have accumulated, the values
  queued in that cycle are yielded first (as the consumer asks for them), then the first
  accumulated failure is raised, which ends the combined sequence: from then on nothing
  more is delivered or raised, and no source that is not being pulled is pulled again.

  For every reachable state \<open>m\<close>: once a failure \<open>e\<close> heads \<open>throws\<close> and the generator
  is running, then under every later interleaving the generator is still running or has
  thrown \<open>e\<close>, and \<open>e\<close> still heads \<open>throws\<close>; each step of the generator yields the
  next queued value if there is one and throws \<open>e\<close> otherwise; with no other event in
  between, the cycle delivers all queued values and then throws \<open>e\<close>. Whenever a step
  throws, what it throws heads \<open>throws\<close>, it delivers nothing itself, and every queued
  value has been delivered before it. After the throw nothing changes any more.
\<close>

theorem mux_first_failure_ends_iteration:
  assumes "m = mux_run evs0 MuxAsyncIterator"
  shows "(throws m = e # es \<and> alive (gen m) \<longrightarrow>
      (alive (gen (mux_run evs m)) \<or> gen (mux_run evs m) = GenThrew e)
      \<and> (\<exists>more. throws (mux_run evs m) = e # es @ more)
      \<and> (gen m = GenStart \<longrightarrow> gen (mux_step ConsumerNext m) = GenAwaitSignal)
      \<and> (gen m = GenAwaitSignal \<longrightarrow>
            mux_step SignalWakes m =
              (if yields m = [] then m\<lparr>gen := GenThrew e\<rparr>
               else m\<lparr>delivered := delivered m @ [snd (yields m ! 0)],
                      gen := GenYield 0 (fst (yields m ! 0))\<rparr>))
      \<and> (\<forall>j k. gen m = GenYield j k \<longrightarrow>
            mux_step ConsumerNext m =
              (if Suc j < length (yields m)
               then (callIteratorNext k m)
                      \<lparr>delivered := delivered m @ [snd (yields m ! Suc j)],
                       gen := GenYield (Suc j) (fst (yields m ! Suc j))\<rparr>
               else (callIteratorNext k m)\<lparr>gen := GenThrew e\<rparr>))
      \<and> (gen m = GenAwaitSignal \<longrightarrow>
            gen (mux_run (SignalWakes # replicate (length (yields m)) ConsumerNext) m)
              = GenThrew e
            \<and> delivered (mux_run (SignalWakes # replicate (length (yields m)) ConsumerNext) m)
                = delivered m @ map snd (yields m))
      \<and> (\<forall>j k. gen m = GenYield j k \<longrightarrow>
            gen (mux_run (replicate (length (yields m) - j) ConsumerNext) m) = GenThrew e
            \<and> delivered (mux_run (replicate (length (yields m) - j) ConsumerNext) m)
                = delivered m @ map snd (drop (Suc j) (yields m))))
   \<and> (gen m \<noteq> GenThrew e \<and> gen (mux_step ev m) = GenThrew e \<longrightarrow>
        (\<exists>rest. throws (mux_step ev m) = e # rest)
        \<and> delivered (mux_step ev m) = delivered m
        \<and> (\<exists>before. delivered (mux_step ev m) = before @ map snd (yields (mux_step ev m))))
   \<and> (gen m = GenThrew e \<longrightarrow>
        gen (mux_run evs m) = GenThrew e \<and> delivered (mux_run evs m) = delivered m
        \<and> (\<forall>k<length (pulls m). pulls m ! k \<noteq> Pulling \<longrightarrow>
              pulls (mux_run evs m) ! k \<noteq> Pulling))"
proof -
  have i: "mux_inv m" unfolding assms by (rule mux_run_inv) (rule MuxAsyncIterator_inv)
  have c: "cycle_inv m"
    unfolding assms by (rule cycle_inv_run) (rule cycle_inv_MuxAsyncIterator)
  from i have l: "length (pulls m) = length (iterators m)"
    by (simp add: mux_inv_def core_def)
  have a: "(alive (gen (mux_run evs m)) \<or> gen (mux_run evs m) = GenThrew e)
      \<and> (\<exists>more. throws (mux_run evs m) = e # es @ more)"
    if "throws m = e # es" "alive (gen m)"
  proof -
    from that have "raising e es m" by (simp add: raising_def)
    from raising_run [OF i this, of evs] show ?thesis by (simp add: raising_def)
  qed
  note b = cycle_steps [OF i c, of e es] whole_cycle [OF c, of e es]
  note t = throw_step [OF c, of e ev]
  have d: "gen (mux_run evs m) = GenThrew e \<and> delivered (mux_run evs m) = delivered m
        \<and> (\<forall>k<length (pulls m). pulls m ! k \<noteq> Pulling \<longrightarrow>
              pulls (mux_run evs m) ! k \<noteq> Pulling)"
    if "gen m = GenThrew e"
    using dead_run_gen [OF that] dead_run_pulls [OF that l] by blast
  from a b t d show ?thesis by blast
qed

lemmas mux_defs = MuxAsyncIterator_def add_def callIteratorNext_def pull_settles_def Let_def
  consumer_next_def loop_head_def signal_wakes_def drain_def after_drain_def
  signal_resolve_def resolve_resume_def resolve_call_def settle_def drop_nth_def
  deferred_def

theorem mux_first_failure_ends_iteration_witness:
  "throws (mux_run mid_drain MuxAsyncIterator) = [''e'']
   \<and> gen (mux_run mid_drain MuxAsyncIterator) = GenAwaitSignal
   \<and> yields (mux_run mid_drain MuxAsyncIterator) = [(0, 5), (2, 6)]
   \<and> gen (mux_run [SignalWakes, ConsumerNext, ConsumerNext]
        (mux_run mid_drain MuxAsyncIterator)) = GenThrew ''e''
   \<and> delivered (mux_run [SignalWakes, ConsumerNext, ConsumerNext]
        (mux_run mid_drain MuxAsyncIterator)) = [5, 6]
   \<and> gen (mux_run (mid_drain @ [SignalWakes, ConsumerNext, PullSettles 0, ConsumerNext])
        MuxAsyncIterator) = GenYield 2 0
   \<and> gen (mux_step ConsumerNext
        (mux_run (mid_drain @ [SignalWakes, ConsumerNext, PullSettles 0, ConsumerNext])
          MuxAsyncIterator)) = GenThrew ''e''
   \<and> delivered (mux_step ConsumerNext
        (mux_run (mid_drain @ [SignalWakes, ConsumerNext, PullSettles 0, ConsumerNext])
          MuxAsyncIterator)) = [5, 6, 7]
   \<and> gen (mux_run [PullSettles 0, ConsumerNext, SignalWakes]
        (mux_run (mid_drain @ [SignalWakes, ConsumerNext, PullSettles 0, ConsumerNext,
           ConsumerNext]) MuxAsyncIterator)) = GenThrew ''e''
   \<and> delivered (mux_run [PullSettles 0, ConsumerNext, SignalWakes]
        (mux_run (mid_drain @ [SignalWakes, ConsumerNext, PullSettles 0, ConsumerNext,
           ConsumerNext]) MuxAsyncIterator)) = [5, 6, 7]"
proof -
  let ?m1 = "mux_run mid_drain MuxAsyncIterator"
  let ?m2 = "mux_run (mid_drain @ [SignalWakes, ConsumerNext, PullSettles 0, ConsumerNext])
          MuxAsyncIterator"
  let ?m3 = "mux_run (mid_drain @ [SignalWakes, ConsumerNext, PullSettles 0, ConsumerNext,
           ConsumerNext]) MuxAsyncIterator"
  have m1: "throws ?m1 = [''e'']" "gen ?m1 = GenAwaitSignal" "yields ?m1 = [(0, 5), (2, 6)]"
    "delivered ?m1 = []"
    by (simp_all add: mid_drain_def mux_defs)
  have m2: "gen ?m2 = GenYield 2 0" "delivered ?m2 = [5, 6, 7]"
    "gen (mux_step ConsumerNext ?m2) = GenThrew ''e''"
    by (simp_all add: mid_drain_def mux_defs)
  have m3: "gen ?m3 = GenThrew ''e''" "delivered ?m3 = [5, 6, 7]"
    by (simp_all add: mid_drain_def mux_defs)
  have h1: "throws ?m1 = ''e'' # [] \<and> alive (gen ?m1)" using m1 by simp
  note t1 = mux_first_failure_ends_iteration [of ?m1 mid_drain "''e''" "[]"]
  from t1 h1 m1(2)
  have "gen (mux_run (SignalWakes # replicate (length (yields ?m1)) ConsumerNext) ?m1)
        = GenThrew ''e''
      \<and> delivered (mux_run (SignalWakes # replicate (length (yields ?m1)) ConsumerNext) ?m1)
        = delivered ?m1 @ map snd (yields ?m1)"
    by blast
  then have c1: "gen (mux_run [SignalWakes, ConsumerNext, ConsumerNext] ?m1)
        = GenThrew ''e''
      \<and> delivered (mux_run [SignalWakes, ConsumerNext, ConsumerNext] ?m1) = [5, 6]"
    unfolding m1(3,4) by simp
  have h2: "gen ?m2 \<noteq> GenThrew ''e'' \<and> gen (mux_step ConsumerNext ?m2) = GenThrew ''e''"
    using m2 by simp
  note t2 = mux_first_failure_ends_iteration [of ?m2
      "mid_drain @ [SignalWakes, ConsumerNext, PullSettles 0, ConsumerNext]" "''e''" _ _
      ConsumerNext]
  from t2 h2 have "delivered (mux_step ConsumerNext ?m2) = delivered ?m2" by blast
  then have c2: "delivered (mux_step ConsumerNext ?m2) = [5, 6, 7]"
    unfolding m2(2) .
  note t3 = mux_first_failure_ends_iteration [of ?m3
      "mid_drain @ [SignalWakes, ConsumerNext, PullSettles 0, ConsumerNext, ConsumerNext]"
      "''e''" _ "[PullSettles 0, ConsumerNext, SignalWakes]"]
  from t3 m3(1)
  have "gen (mux_run [PullSettles 0, ConsumerNext, SignalWakes] ?m3) = GenThrew ''e''
      \<and> delivered (mux_run [PullSettles 0, ConsumerNext, SignalWakes] ?m3) = delivered ?m3"
    by blast
  then have c3: "gen (mux_run [PullSettles 0, ConsumerNext, SignalWakes] ?m3)
        = GenThrew ''e''
      \<and> delivered (mux_run [PullSettles 0, ConsumerNext, SignalWakes] ?m3) = [5, 6, 7]"
    unfolding m3(2) .
  from m1 m2 c1 c2 c3 show ?thesis by blast
qed

text \<open>
  C4, as stated, fails: \<^verbatim>\<open>for (const e of this.throws) { throw e; }\<close> leaves the
  generator at its first iteration. With failures \<open>e1\<close> and \<open>e2\<close> accumulated, only
  \<open>e1\<close> is raised; \<open>e2\<close> stays in the list, which is not cleared; and the third source,
  whose pull is outstanding, has its value 5 queued afterwards but never delivered.
\<close>

theorem mux_raises_first_failure_only:
  "gen (mux_run (two_failures @ [SignalWakes]) MuxAsyncIterator) = GenThrew ''e1''
   \<and> throws (mux_run (two_failures @ [SignalWakes]) MuxAsyncIterator) = [''e1'', ''e2'']
   \<and> pulls (mux_run (two_failures @ [SignalWakes]) MuxAsyncIterator)
       = [Failed, Failed, Pulling]
   \<and> yields (mux_run (two_failures @ [SignalWakes, PullSettles 2, ConsumerNext,
         SignalWakes, ConsumerNext]) MuxAsyncIterator) = [(2, 5)]
   \<and> delivered (mux_run (two_failures @ [SignalWakes, PullSettles 2, ConsumerNext,
         SignalWakes, ConsumerNext]) MuxAsyncIterator) = []
   \<and> gen (mux_run (two_failures @ [SignalWakes, PullSettles 2, ConsumerNext,
         SignalWakes, ConsumerNext]) MuxAsyncIterator) = GenThrew ''e1''"
  by (simp add: two_failures_def mux_defs)

end
